theory Spec2Isabelle
  imports Main "HOL-Library.Word"
begin

section \<open>Solidity value types and checked arithmetic\<close>

text \<open>
  The contract \<^verbatim>\<open>FHEVault\<close> (\<^verbatim>\<open>contracts/FHEVault.sol\<close>) keeps plaintext stakes in
  \<^verbatim>\<open>uint256\<close>, takes amounts as \<^verbatim>\<open>uint64\<close> and keeps encrypted mirrors as \<^verbatim>\<open>euint64\<close>
  handles. A handle is a \<^verbatim>\<open>bytes32\<close> the contract never inspects except for the test
  against zero (\<^verbatim>\<open>FHE.isInitialized\<close>); it is modelled as a natural number, \<open>0\<close> being the
  uninitialised handle.
\<close>

type_synonym address = "160 word"
type_synonym uint64 = "64 word"
type_synonym uint256 = "256 word"
type_synonym euint64 = nat

datatype error =
    InvalidToken
  | InvalidAmount
  | InsufficientStake
  | Panic nat
  | EngineRejected
  | TransferReverted

text \<open>Sequencing of calls that may revert: the first revert ends the call.\<close>

definition and_then :: "error + 'a \<Rightarrow> ('a \<Rightarrow> error + 'b) \<Rightarrow> error + 'b" where
  "and_then m k = (case m of Inl e \<Rightarrow> Inl e | Inr x \<Rightarrow> k x)"

text \<open>
  Solidity 0.8 arithmetic on \<^verbatim>\<open>uint256\<close> is checked: overflow and underflow revert with
  \<^verbatim>\<open>Panic(0x11)\<close>.
\<close>

definition checked_add :: "uint256 \<Rightarrow> uint256 \<Rightarrow> error + uint256" where
  "checked_add a b = (if unat a + unat b < 2 ^ 256 then Inr (a + b) else Inl (Panic 17))"

definition checked_sub :: "uint256 \<Rightarrow> uint256 \<Rightarrow> error + uint256" where
  "checked_sub a b = (if unat b \<le> unat a then Inr (a - b) else Inl (Panic 17))"

section \<open>The encryption capability\<close>

text \<open>
  Modelled from the spec: the encryption capability (the FHEVM library behind \<^verbatim>\<open>FHE.*\<close>) is
  an external dependency whose source is not part of the repository. The model is the
  engine the specification describes (sections 6 and 9): it tracks the plaintext behind
  every handle it has issued, issues a fresh handle for every encryption and every
  combination, combines the 64-bit values of \<^verbatim>\<open>euint64\<close> with wrap-around, refuses handles
  the calling contract has no access to, and records decryption grants. A contract has
  access to a handle for the rest of the transaction that created it (\<open>transient\<close>) and
  for good once it is granted (\<open>persistent\<close>). Every operation is appended to \<open>trace\<close>.
\<close>

datatype fhe_op =
    TrivialEncrypt address uint64 euint64
  | FheAdd address euint64 euint64 euint64
  | FheSub address euint64 euint64 euint64
  | Allow address euint64 address

record fhevm =
  ciphertexts :: "euint64 \<Rightarrow> uint64 option"
  issued :: nat
  persistent :: "(euint64 \<times> address) set"
  transient :: "(euint64 \<times> address) set"
  trace :: "fhe_op list"

definition empty_fhevm :: fhevm where
  "empty_fhevm = \<lparr>ciphertexts = (\<lambda>h. None), issued = 0, persistent = {}, transient = {},
     trace = []\<rparr>"

text \<open>
  Modelled from the spec: decrypting a handle yields the plaintext the engine holds for
  it; a handle the engine never issued has none.
\<close>

definition decrypt :: "fhevm \<Rightarrow> euint64 \<Rightarrow> uint64 option" where
  "decrypt f h = ciphertexts f h"

definition fresh :: "fhevm \<Rightarrow> euint64" where
  "fresh f = Suc (issued f)"

text \<open>Modelled from the spec: \<^verbatim>\<open>is_initialized(handle)\<close>; the zero handle is the
  uninitialised one.\<close>

definition FHE_isInitialized :: "euint64 \<Rightarrow> bool" where
  "FHE_isInitialized h \<longleftrightarrow> h \<noteq> 0"

definition FHE_isAllowed :: "euint64 \<Rightarrow> address \<Rightarrow> fhevm \<Rightarrow> bool" where
  "FHE_isAllowed h a f \<longleftrightarrow> (h, a) \<in> persistent f \<or> (h, a) \<in> transient f"

text \<open>
  Modelled from the spec: issuing a fresh handle for a value; the calling contract may
  use it until the transaction ends.
\<close>

definition issue :: "address \<Rightarrow> uint64 \<Rightarrow> fhe_op \<Rightarrow> fhevm \<Rightarrow> fhevm" where
  "issue caller v op f =
     f\<lparr>ciphertexts := (ciphertexts f)(fresh f := Some v),
       issued := fresh f,
       transient := insert (fresh f, caller) (transient f),
       trace := trace f @ [op]\<rparr>"

text \<open>Modelled from the spec: \<^verbatim>\<open>encrypt(plaintext)\<close>, a fresh handle each call.\<close>

definition FHE_asEuint64 :: "address \<Rightarrow> uint64 \<Rightarrow> fhevm \<Rightarrow> euint64 \<times> fhevm" where
  "FHE_asEuint64 caller v f = (fresh f, issue caller v (TrivialEncrypt caller v (fresh f)) f)"

text \<open>
  Modelled from the spec: \<^verbatim>\<open>homomorphic_add\<close> and \<^verbatim>\<open>homomorphic_subtract\<close> of two handles,
  which fail only on malformed or foreign handles; the result is a new handle for the
  sum or difference of the two 64-bit plaintexts, which wraps around. The specification
  does not say whether combining the same two handles a second time returns the same
  handle; in the model every combination receives a handle of its own.
\<close>

definition FHE_add :: "address \<Rightarrow> euint64 \<Rightarrow> euint64 \<Rightarrow> fhevm \<Rightarrow> error + euint64 \<times> fhevm" where
  "FHE_add caller a b f =
     (if \<not> FHE_isAllowed a caller f \<or> \<not> FHE_isAllowed b caller f then Inl EngineRejected
      else case (ciphertexts f a, ciphertexts f b) of
        (Some x, Some y) \<Rightarrow> Inr (fresh f, issue caller (x + y) (FheAdd caller a b (fresh f)) f)
      | _ \<Rightarrow> Inl EngineRejected)"

definition FHE_sub :: "address \<Rightarrow> euint64 \<Rightarrow> euint64 \<Rightarrow> fhevm \<Rightarrow> error + euint64 \<times> fhevm" where
  "FHE_sub caller a b f =
     (if \<not> FHE_isAllowed a caller f \<or> \<not> FHE_isAllowed b caller f then Inl EngineRejected
      else case (ciphertexts f a, ciphertexts f b) of
        (Some x, Some y) \<Rightarrow> Inr (fresh f, issue caller (x - y) (FheSub caller a b (fresh f)) f)
      | _ \<Rightarrow> Inl EngineRejected)"

text \<open>
  Modelled from the spec: \<^verbatim>\<open>grant_decrypt(handle, principal)\<close>, idempotent; only a contract
  with access to the handle may grant it.
\<close>

definition grant :: "address \<Rightarrow> euint64 \<Rightarrow> address \<Rightarrow> fhevm \<Rightarrow> fhevm" where
  "grant caller h a f =
     f\<lparr>persistent := insert (h, a) (persistent f), trace := trace f @ [Allow caller h a]\<rparr>"

definition FHE_allow :: "address \<Rightarrow> euint64 \<Rightarrow> address \<Rightarrow> fhevm \<Rightarrow> error + fhevm" where
  "FHE_allow caller h a f =
     (if \<not> FHE_isAllowed h caller f then Inl EngineRejected else Inr (grant caller h a f))"

definition FHE_allowThis :: "address \<Rightarrow> euint64 \<Rightarrow> fhevm \<Rightarrow> error + fhevm" where
  "FHE_allowThis caller h f = FHE_allow caller h caller f"

section \<open>The Registry\<close>

text \<open>
  The confidential token (\<^verbatim>\<open>contracts/ERC7984USDT.sol\<close>) is a black box to the vault: a
  call to \<^verbatim>\<open>confidentialTransferFrom\<close> or \<^verbatim>\<open>confidentialTransfer\<close> either returns or
  reverts. The token is a parameter of every operation: a predicate that says which
  transfer requests it accepts. What the token does to its own balances, and the handles
  it creates for them, are outside the model.
\<close>

datatype token_call =
    ConfidentialTransferFrom address address euint64
  | ConfidentialTransfer address euint64

type_synonym registry = "token_call \<Rightarrow> bool"

section \<open>The vault\<close>

datatype event = Staked address uint256 | Withdrawn address uint256

text \<open>
  The storage of \<^verbatim>\<open>FHEVault\<close>, with the address of the contract, the engine it talks to,
  the events it has emitted and the calls it has made to the token. A Solidity mapping
  holds the zero value at every key never written.
\<close>

record vault =
  thisAddress :: address
  token :: address
  stakes :: "address \<Rightarrow> uint256"
  stakesCipher :: "address \<Rightarrow> euint64"
  totalStaked :: uint256
  totalStakedCipher :: euint64
  fhe :: fhevm
  events :: "event list"
  calls :: "token_call list"

definition constructor :: "address \<Rightarrow> address \<Rightarrow> error + vault" where
  "constructor self tokenAddress =
     (if tokenAddress = 0 then Inl InvalidToken
      else Inr \<lparr>thisAddress = self, token = tokenAddress, stakes = (\<lambda>a. 0),
        stakesCipher = (\<lambda>a. 0), totalStaked = 0, totalStakedCipher = 0,
        fhe = empty_fhevm, events = [], calls = []\<rparr>)"

definition updateEncryptedStake :: "address \<Rightarrow> euint64 \<Rightarrow> bool \<Rightarrow> vault \<Rightarrow> error + vault" where
  "updateEncryptedStake user amount isAddition s =
     (let currentCipher = stakesCipher s user in
      and_then
        (if \<not> FHE_isInitialized currentCipher then Inr (amount, fhe s)
         else if isAddition then FHE_add (thisAddress s) currentCipher amount (fhe s)
         else FHE_sub (thisAddress s) currentCipher amount (fhe s))
        (\<lambda>(updatedCipher, f1).
      and_then (FHE_allowThis (thisAddress s) updatedCipher f1) (\<lambda>f2.
      and_then (FHE_allow (thisAddress s) updatedCipher user f2) (\<lambda>f3.
      Inr (s\<lparr>stakesCipher := (stakesCipher s)(user := updatedCipher), fhe := f3\<rparr>)))))"

definition updateTotalEncryptedStake :: "euint64 \<Rightarrow> bool \<Rightarrow> vault \<Rightarrow> error + vault" where
  "updateTotalEncryptedStake amount isAddition s =
     and_then
       (if \<not> FHE_isInitialized (totalStakedCipher s) then Inr (amount, fhe s)
        else if isAddition then FHE_add (thisAddress s) (totalStakedCipher s) amount (fhe s)
        else FHE_sub (thisAddress s) (totalStakedCipher s) amount (fhe s))
       (\<lambda>(updatedCipher, f1).
     and_then (FHE_allowThis (thisAddress s) updatedCipher f1) (\<lambda>f2.
     Inr (s\<lparr>totalStakedCipher := updatedCipher, fhe := f2\<rparr>)))"

definition stake :: "registry \<Rightarrow> address \<Rightarrow> uint64 \<Rightarrow> vault \<Rightarrow> error + vault" where
  "stake reg sender amount s =
     (if amount = 0 then Inl InvalidAmount
      else
        let currentStake = stakes s sender in
        and_then (checked_add currentStake (ucast amount)) (\<lambda>newStake.
        let s1 = s\<lparr>stakes := (stakes s)(sender := newStake)\<rparr> in
        and_then (checked_add (totalStaked s1) (ucast amount)) (\<lambda>newTotal.
        let s2 = s1\<lparr>totalStaked := newTotal\<rparr>;
            (encryptedAmount, f3) = FHE_asEuint64 (thisAddress s2) amount (fhe s2);
            s3 = s2\<lparr>fhe := f3\<rparr> in
        and_then (updateEncryptedStake sender encryptedAmount True s3) (\<lambda>s4.
        and_then (updateTotalEncryptedStake encryptedAmount True s4) (\<lambda>s5.
        and_then (FHE_allow (thisAddress s5) encryptedAmount (thisAddress s5) (fhe s5)) (\<lambda>f6.
        and_then (FHE_allow (thisAddress s5) encryptedAmount (token s5) f6) (\<lambda>f7.
        let s7 = s5\<lparr>fhe := f7\<rparr>;
            c = ConfidentialTransferFrom sender (thisAddress s7) encryptedAmount in
        if \<not> reg c then Inl TransferReverted
        else Inr (s7\<lparr>calls := calls s7 @ [c],
                      events := events s7 @ [Staked sender (ucast amount)]\<rparr>))))))))"

definition withdraw :: "registry \<Rightarrow> address \<Rightarrow> uint64 \<Rightarrow> vault \<Rightarrow> error + vault" where
  "withdraw reg sender amount s =
     (if amount = 0 then Inl InvalidAmount
      else
        let currentStake = stakes s sender in
        if currentStake < ucast amount then Inl InsufficientStake
        else
        and_then (checked_sub currentStake (ucast amount)) (\<lambda>newStake.
        let s1 = s\<lparr>stakes := (stakes s)(sender := newStake)\<rparr> in
        and_then (checked_sub (totalStaked s1) (ucast amount)) (\<lambda>newTotal.
        let s2 = s1\<lparr>totalStaked := newTotal\<rparr>;
            (encryptedAmount, f3) = FHE_asEuint64 (thisAddress s2) amount (fhe s2);
            s3 = s2\<lparr>fhe := f3\<rparr> in
        and_then (updateEncryptedStake sender encryptedAmount False s3) (\<lambda>s4.
        and_then (updateTotalEncryptedStake encryptedAmount False s4) (\<lambda>s5.
        and_then (FHE_allow (thisAddress s5) encryptedAmount (thisAddress s5) (fhe s5)) (\<lambda>f6.
        and_then (FHE_allow (thisAddress s5) encryptedAmount (token s5) f6) (\<lambda>f7.
        let s7 = s5\<lparr>fhe := f7\<rparr>;
            c = ConfidentialTransfer sender encryptedAmount in
        if \<not> reg c then Inl TransferReverted
        else Inr (s7\<lparr>calls := calls s7 @ [c],
                      events := events s7 @ [Withdrawn sender (ucast amount)]\<rparr>))))))))"

text \<open>
  The EVM runs a call as a transaction: a revert undoes every effect of the call, and the
  transient access grants of the engine end with the transaction.
\<close>

definition endTransaction :: "vault \<Rightarrow> vault" where
  "endTransaction s = s\<lparr>fhe := (fhe s)\<lparr>transient := {}\<rparr>\<rparr>"

definition transact :: "(vault \<Rightarrow> error + vault) \<Rightarrow> vault \<Rightarrow> error option \<times> vault" where
  "transact call s =
     (case call s of Inl e \<Rightarrow> (Some e, s) | Inr s' \<Rightarrow> (None, endTransaction s'))"

definition getStake :: "vault \<Rightarrow> address \<Rightarrow> uint256" where
  "getStake s user = stakes s user"

definition getStakeCipher :: "vault \<Rightarrow> address \<Rightarrow> euint64" where
  "getStakeCipher s user = stakesCipher s user"

definition getTotalStaked :: "vault \<Rightarrow> uint256" where
  "getTotalStaked s = totalStaked s"

definition getTotalStakedCipher :: "vault \<Rightarrow> euint64" where
  "getTotalStakedCipher s = totalStakedCipher s"

text \<open>
  The states of a deployed vault: the state the constructor leaves, and every state a
  successful \<^verbatim>\<open>stake\<close> or \<^verbatim>\<open>withdraw\<close> leaves, whatever the token accepts, also after
  the end of the transaction.
\<close>

inductive reachable :: "vault \<Rightarrow> bool" where
  deployed: "constructor self tokenAddress = Inr s \<Longrightarrow> reachable s"
| staked: "reachable s \<Longrightarrow> stake reg sender amount s = Inr s' \<Longrightarrow> reachable s'"
| withdrawn: "reachable s \<Longrightarrow> withdraw reg sender amount s = Inr s' \<Longrightarrow> reachable s'"
| committed: "reachable s \<Longrightarrow> reachable (endTransaction s)"

text \<open>The two state-changing entry points of the contract, as one dispatch.\<close>

datatype call = Stake uint64 | Withdraw uint64

definition execute :: "registry \<Rightarrow> address \<Rightarrow> call \<Rightarrow> vault \<Rightarrow> error + vault" where
  "execute reg sender c s =
     (case c of Stake amount \<Rightarrow> stake reg sender amount s
      | Withdraw amount \<Rightarrow> withdraw reg sender amount s)"

definition is_deposit :: "call \<Rightarrow> bool" where
  "is_deposit c = (case c of Stake amount \<Rightarrow> True | Withdraw amount \<Rightarrow> False)"

definition amount_of :: "call \<Rightarrow> uint64" where
  "amount_of c = (case c of Stake amount \<Rightarrow> amount | Withdraw amount \<Rightarrow> amount)"

text \<open>The request the call sends to the token for the ciphertext \<open>h\<close>.\<close>

definition transfer_request :: "call \<Rightarrow> address \<Rightarrow> address \<Rightarrow> euint64 \<Rightarrow> token_call" where
  "transfer_request c sender self h =
     (case c of Stake amount \<Rightarrow> ConfidentialTransferFrom sender self h
      | Withdraw amount \<Rightarrow> ConfidentialTransfer sender h)"

definition emitted :: "call \<Rightarrow> address \<Rightarrow> event" where
  "emitted c sender =
     (case c of Stake amount \<Rightarrow> Staked sender (ucast amount)
      | Withdraw amount \<Rightarrow> Withdrawn sender (ucast amount))"

text \<open>The fixture of the tests: a token, a vault deployed on it, and two accounts.\<close>

definition deployFixture :: vault where
  "deployFixture = projr (constructor 4096 8192)"

definition alice :: address where
  "alice = 1"

definition bob :: address where
  "bob = 2"

definition accepting :: registry where
  "accepting c = True"

definition rejecting :: registry where
  "rejecting c = False"

text \<open>
  The scenarios of the specification: account X stakes 5_000_000 into the empty vault
  (A) and then, in a later transaction, withdraws 2_000_000 (B).
\<close>

definition scenarioA :: vault where
  "scenarioA = projr (stake accepting alice 5000000 deployFixture)"

definition scenarioB :: vault where
  "scenarioB = projr (withdraw accepting alice 2000000 (endTransaction scenarioA))"

text \<open>Two deposits of \<open>2 ^ 63\<close> by one account, in two transactions.\<close>

definition overflowA :: vault where
  "overflowA = projr (stake accepting alice 9223372036854775808 deployFixture)"

definition overflowB :: vault where
  "overflowB = projr (stake accepting alice 9223372036854775808 (endTransaction overflowA))"

text \<open>A second deposit by the account of scenario A, in a later transaction.\<close>

definition secondDeposit :: vault where
  "secondDeposit = projr (stake accepting alice 5 (endTransaction scenarioA))"

text \<open>
  A second account deposits 1_000_000 after scenario A, and in a later transaction
  withdraws 400_000.
\<close>

definition bobDeposit :: vault where
  "bobDeposit = projr (stake accepting bob 1000000 (endTransaction scenarioA))"

definition bobWithdraw :: vault where
  "bobWithdraw = projr (withdraw accepting bob 400000 (endTransaction bobDeposit))"

text \<open>
  Scenario D of the specification: two accounts deposit 1_000_000 each into the empty
  vault, one transaction each, in either order.
\<close>

definition aliceFirst :: vault where
  "aliceFirst = snd (transact (stake accepting alice 1000000) deployFixture)"

definition aliceThenBob :: vault where
  "aliceThenBob = snd (transact (stake accepting bob 1000000) aliceFirst)"

definition bobFirst :: vault where
  "bobFirst = snd (transact (stake accepting bob 1000000) deployFixture)"

definition bobThenAlice :: vault where
  "bobThenAlice = snd (transact (stake accepting alice 1000000) bobFirst)"

text \<open>The encryptions an engine trace records: the value and the handle it received.\<close>

fun encryptions :: "fhe_op list \<Rightarrow> (uint64 \<times> euint64) list" where
  "encryptions [] = []"
| "encryptions (TrivialEncrypt c v h # ops) = (v, h) # encryptions ops"
| "encryptions (FheAdd c a b r # ops) = encryptions ops"
| "encryptions (FheSub c a b r # ops) = encryptions ops"
| "encryptions (Allow c h a # ops) = encryptions ops"

section \<open>The accumulator rule and the invariants\<close>

fun grant_decrypt :: "address \<Rightarrow> euint64 \<Rightarrow> address list \<Rightarrow> fhevm \<Rightarrow> error + fhevm" where
  "grant_decrypt ledger h [] f = Inr f"
| "grant_decrypt ledger h (p # ps) f = and_then (FHE_allow ledger h p f) (grant_decrypt ledger h ps)"

definition update :: "address \<Rightarrow> address list \<Rightarrow> euint64 \<Rightarrow> euint64 \<Rightarrow> bool \<Rightarrow> fhevm \<Rightarrow> error + euint64 \<times> fhevm" where
  "update ledger principals current_handle delta_ciphertext is_addition f =
     and_then
       (if current_handle = 0 then Inr (delta_ciphertext, f)
        else if is_addition then FHE_add ledger current_handle delta_ciphertext f
        else FHE_sub ledger current_handle delta_ciphertext f)
       (\<lambda>(new_handle, f1).
     and_then (grant_decrypt ledger new_handle principals f1) (\<lambda>f2. Inr (new_handle, f2)))"

definition extends :: "fhevm \<Rightarrow> fhevm \<Rightarrow> bool" where
  "extends f f' \<longleftrightarrow>
     issued f \<le> issued f' \<and> (\<forall>h. h \<le> issued f \<longrightarrow> ciphertexts f' h = ciphertexts f h) \<and>
     persistent f \<subseteq> persistent f' \<and> transient f \<subseteq> transient f'"

definition combine :: "bool \<Rightarrow> uint64 \<Rightarrow> uint64 \<Rightarrow> uint64" where
  "combine is_addition x y = (if is_addition then x + y else x - y)"

definition combine_op :: "bool \<Rightarrow> address \<Rightarrow> euint64 \<Rightarrow> euint64 \<Rightarrow> euint64 \<Rightarrow> fhe_op" where
  "combine_op is_addition c a b r = (if is_addition then FheAdd c a b r else FheSub c a b r)"

definition accumulate_ops :: "address \<Rightarrow> address list \<Rightarrow> euint64 \<Rightarrow> euint64 \<Rightarrow> bool \<Rightarrow> euint64 \<Rightarrow> fhe_op list" where
  "accumulate_ops ledger principals cur delta is_addition new =
     (if cur = 0 then [] else [combine_op is_addition ledger cur delta new]) @
     map (Allow ledger new) principals"

text \<open>The effect of granting a handle to a list of principals.\<close>

definition grants :: "address \<Rightarrow> euint64 \<Rightarrow> address list \<Rightarrow> fhevm \<Rightarrow> fhevm" where
  "grants c h ps f = fold (grant c h) ps f"

text \<open>The engine's part of a deposit or withdrawal, as both functions perform it.\<close>

definition accumulate ::
  "bool \<Rightarrow> address \<Rightarrow> address \<Rightarrow> address \<Rightarrow> uint64 \<Rightarrow> euint64 \<Rightarrow> euint64 \<Rightarrow> fhevm \<Rightarrow>
     error + euint64 \<times> euint64 \<times> fhevm" where
  "accumulate add self tok user amount cur tot f =
     and_then (update self [self, user] cur (fresh f) add
                 (issue self amount (TrivialEncrypt self amount (fresh f)) f)) (\<lambda>(n1, f1).
     and_then (update self [self] tot (fresh f) add f1) (\<lambda>(n2, f2).
     and_then (FHE_allow self (fresh f) self f2) (\<lambda>f3.
     and_then (FHE_allow self (fresh f) tok f3) (\<lambda>f4. Inr (n1, n2, f4)))))"

definition mirrors :: "fhevm \<Rightarrow> address \<Rightarrow> euint64 \<Rightarrow> uint256 \<Rightarrow> bool" where
  "mirrors f self h v \<longleftrightarrow>
     h \<le> issued f \<and>
     (if h = 0 then v = 0 else decrypt f h = Some (ucast v) \<and> (h, self) \<in> persistent f)"

definition consistent :: "vault \<Rightarrow> bool" where
  "consistent s \<longleftrightarrow>
     (\<forall>a. mirrors (fhe s) (thisAddress s) (stakesCipher s a) (stakes s a)) \<and>
     mirrors (fhe s) (thisAddress s) (totalStakedCipher s) (totalStaked s)"

definition conserved :: "vault \<Rightarrow> bool" where
  "conserved s \<longleftrightarrow> unat (totalStaked s) = (\<Sum>a\<in>UNIV. unat (stakes s a))"

section \<open>Words and sequencing\<close>

lemma unat_ucast_amount: "unat (ucast (a :: 64 word) :: 256 word) = unat a"
proof -
  have "unat a < 2 ^ 64" using unsigned_less [of a] by simp
  then have "unat a < 2 ^ 256" by (rule less_le_trans) simp
  then show ?thesis by (simp add: unsigned_ucast_eq take_bit_nat_eq_self)
qed

lemma dvd_64_256: "(2 :: nat) ^ 64 dvd 2 ^ 256"
  by (rule le_imp_power_dvd) simp

lemma unat_ucast_down: "unat (ucast (v :: 256 word) :: 64 word) = unat v mod 2 ^ 64"
  by (simp add: unsigned_ucast_eq take_bit_eq_mod)

lemma ucast_down_add: "(ucast (v + ucast (a :: 64 word) :: 256 word) :: 64 word) = ucast v + a"
proof -
  have "unat (ucast (v + ucast a :: 256 word) :: 64 word) = ((unat v + unat a) mod 2 ^ 256) mod 2 ^ 64"
    by (simp only: unat_ucast_down unat_word_ariths unat_ucast_amount len_of_numeral_defs)
       simp
  also have "\<dots> = (unat v + unat a) mod 2 ^ 64"
    by (rule mod_mod_cancel [OF dvd_64_256])
  also have "\<dots> = (unat v mod 2 ^ 64 + unat a) mod 2 ^ 64"
    by (simp add: mod_add_left_eq)
  also have "\<dots> = unat ((ucast v :: 64 word) + a)"
    by (simp only: unat_ucast_down unat_word_ariths) simp
  finally show ?thesis by (simp only: word_unat_eq_iff)
qed

lemma ucast_down_sub: "(ucast (v - ucast (a :: 64 word) :: 256 word) :: 64 word) = ucast v - a"
proof -
  have "v = (v - ucast a) + ucast a" by simp
  then have "(ucast v :: 64 word) = ucast ((v - ucast a) + ucast a)" by simp
  also have "\<dots> = ucast (v - ucast a) + a" by (rule ucast_down_add)
  finally show ?thesis by simp
qed

lemma and_then_Inl [simp]: "and_then (Inl e) k = Inl e"
  by (simp add: and_then_def)

lemma and_then_Inr [simp]: "and_then (Inr x) k = k x"
  by (simp add: and_then_def)

lemma and_then_eq_Inr: "and_then m k = Inr y \<longleftrightarrow> (\<exists>x. m = Inr x \<and> k x = Inr y)"
  by (cases m) auto

lemma and_then_eq_Inl: "and_then m k = Inl e \<longleftrightarrow> m = Inl e \<or> (\<exists>x. m = Inr x \<and> k x = Inl e)"
  by (cases m) auto

section \<open>Facts about the engine and the accumulator rule\<close>

lemma issue_simps [simp]:
  "ciphertexts (issue c v op f) = (ciphertexts f)(fresh f := Some v)"
  "issued (issue c v op f) = fresh f"
  "persistent (issue c v op f) = persistent f"
  "transient (issue c v op f) = insert (fresh f, c) (transient f)"
  "trace (issue c v op f) = trace f @ [op]"
  by (simp_all add: issue_def)

lemma grant_simps [simp]:
  "ciphertexts (grant c h a f) = ciphertexts f"
  "issued (grant c h a f) = issued f"
  "persistent (grant c h a f) = insert (h, a) (persistent f)"
  "transient (grant c h a f) = transient f"
  "trace (grant c h a f) = trace f @ [Allow c h a]"
  by (simp_all add: grant_def)

lemma fresh_grant [simp]: "fresh (grant c h a f) = fresh f"
  by (simp add: fresh_def)

lemma fresh_issue [simp]: "fresh (issue c v op f) = Suc (fresh f)"
  by (simp add: fresh_def)

lemma isAllowed_grant: "FHE_isAllowed h c (grant c' h' a f) \<longleftrightarrow> (h, c) = (h', a) \<or> FHE_isAllowed h c f"
  by (auto simp: FHE_isAllowed_def)

lemma isAllowed_issue: "FHE_isAllowed h c (issue c' v op f) \<longleftrightarrow> (h, c) = (fresh f, c') \<or> FHE_isAllowed h c f"
  by (auto simp: FHE_isAllowed_def)

lemma extends_refl [simp]: "extends f f"
  by (simp add: extends_def)

lemma extends_trans: "extends f g \<Longrightarrow> extends g h \<Longrightarrow> extends f h"
proof -
  assume fg: "extends f g" and gh: "extends g h"
  have "ciphertexts h k = ciphertexts f k" if "k \<le> issued f" for k
  proof -
    from that fg have "k \<le> issued g" by (simp add: extends_def)
    with gh have "ciphertexts h k = ciphertexts g k" by (simp add: extends_def)
    with that fg show ?thesis by (simp add: extends_def)
  qed
  with fg gh show ?thesis
    by (auto simp: extends_def)
qed

lemma extends_issue [simp]: "extends f (issue c v op f)"
  by (simp add: extends_def fresh_def subset_insertI)

lemma extends_grant [simp]: "extends f (grant c h a f)"
  by (simp add: extends_def subset_insertI)

lemma FHE_allow_eq_Inr:
  "FHE_allow c h a f = Inr f' \<longleftrightarrow> FHE_isAllowed h c f \<and> f' = grant c h a f"
  by (auto simp: FHE_allow_def)

lemma FHE_combine_eq_Inr:
  "(if is_addition then FHE_add c a b f else FHE_sub c a b f) = Inr r \<longleftrightarrow>
     FHE_isAllowed a c f \<and> FHE_isAllowed b c f \<and>
     (\<exists>x y. ciphertexts f a = Some x \<and> ciphertexts f b = Some y \<and>
        r = (fresh f, issue c (combine is_addition x y) (combine_op is_addition c a b (fresh f)) f))"
  by (auto simp: FHE_add_def FHE_sub_def combine_def combine_op_def split: option.splits)

lemma grants_simps [simp]:
  "ciphertexts (grants c h ps f) = ciphertexts f"
  "issued (grants c h ps f) = issued f"
  "persistent (grants c h ps f) = Pair h ` set ps \<union> persistent f"
  "transient (grants c h ps f) = transient f"
  "trace (grants c h ps f) = trace f @ map (Allow c h) ps"
  unfolding grants_def by (induction ps arbitrary: f; auto)+

lemma grant_decrypt_eq_Inr:
  "grant_decrypt c h ps f = Inr f' \<longleftrightarrow> (ps = [] \<or> FHE_isAllowed h c f) \<and> f' = grants c h ps f"
proof (induction ps arbitrary: f)
  case Nil
  show ?case by (auto simp: grants_def)
next
  case (Cons p ps)
  show ?case
    by (auto simp: and_then_eq_Inr FHE_allow_eq_Inr Cons.IH grants_def isAllowed_grant)
qed

lemma update_eq_Inr:
  "update c ps cur delta add f = Inr (n, f') \<longleftrightarrow>
     (if cur = 0 then n = delta \<and> (ps = [] \<or> FHE_isAllowed delta c f) \<and> f' = grants c delta ps f
      else FHE_isAllowed cur c f \<and> FHE_isAllowed delta c f \<and> n = fresh f \<and>
        (\<exists>x y. ciphertexts f cur = Some x \<and> ciphertexts f delta = Some y \<and>
           f' = grants c n ps (issue c (combine add x y) (combine_op add c cur delta n) f)))"
proof (cases "cur = 0")
  case True
  then show ?thesis
    by (auto simp: update_def and_then_eq_Inr grant_decrypt_eq_Inr)
next
  case False
  have "update c ps cur delta add f =
      and_then (if add then FHE_add c cur delta f else FHE_sub c cur delta f)
       (\<lambda>(new_handle, f1).
         and_then (grant_decrypt c new_handle ps f1) (\<lambda>f2. Inr (new_handle, f2)))"
    using False by (simp add: update_def)
  then show ?thesis
    using False
    by (auto simp: and_then_eq_Inr FHE_combine_eq_Inr grant_decrypt_eq_Inr isAllowed_issue)
qed

lemma update_extends: "update c ps cur delta add f = Inr (n, f') \<Longrightarrow> extends f f'"
  by (auto simp: update_eq_Inr extends_def fresh_def split: if_splits)

lemma update_handle: "update c ps cur delta add f = Inr (n, f') \<Longrightarrow> n = (if cur = 0 then delta else fresh f)"
  by (auto simp: update_eq_Inr split: if_splits)

lemma update_issued:
  "update c ps cur delta add f = Inr (n, f') \<Longrightarrow> issued f' = (if cur = 0 then issued f else fresh f)"
  by (auto simp: update_eq_Inr split: if_splits)

lemma update_trace:
  "update c ps cur delta add f = Inr (n, f') \<Longrightarrow> trace f' = trace f @ accumulate_ops c ps cur delta add n"
  by (auto simp: update_eq_Inr accumulate_ops_def split: if_splits)

lemma update_persistent:
  "update c ps cur delta add f = Inr (n, f') \<Longrightarrow> persistent f' = Pair n ` set ps \<union> persistent f"
  by (auto simp: update_eq_Inr split: if_splits)

lemma update_combined:
  "update c ps cur delta add f = Inr (n, f') \<Longrightarrow> cur \<noteq> 0 \<Longrightarrow>
     \<exists>x y. ciphertexts f cur = Some x \<and> ciphertexts f delta = Some y \<and>
       ciphertexts f' n = Some (combine add x y)"
  by (auto simp: update_eq_Inr)

lemma update_succeeds:
  assumes "FHE_isAllowed delta c f" and "ciphertexts f delta \<noteq> None"
    and "cur \<noteq> 0 \<Longrightarrow> FHE_isAllowed cur c f \<and> ciphertexts f cur \<noteq> None"
  shows "\<exists>n f'. update c ps cur delta add f = Inr (n, f')"
  using assms by (cases "cur = 0") (auto simp: update_eq_Inr)

section \<open>The functions of the vault, step by step\<close>

lemma accumulate_eq_Inr:
  "accumulate add self tok user amount cur tot f = Inr (n1, n2, f') \<longleftrightarrow>
     (\<exists>f1 f2.
        update self [self, user] cur (fresh f) add
          (issue self amount (TrivialEncrypt self amount (fresh f)) f) = Inr (n1, f1) \<and>
        update self [self] tot (fresh f) add f1 = Inr (n2, f2) \<and>
        FHE_isAllowed (fresh f) self f2 \<and>
        f' = grant self (fresh f) tok (grant self (fresh f) self f2))"
  by (auto simp: accumulate_def and_then_eq_Inr FHE_allow_eq_Inr isAllowed_grant)

lemma updateEncryptedStake_update:
  "updateEncryptedStake user delta isAddition s =
     and_then (update (thisAddress s) [thisAddress s, user] (stakesCipher s user) delta isAddition (fhe s))
       (\<lambda>(h, f). Inr (s\<lparr>stakesCipher := (stakesCipher s)(user := h), fhe := f\<rparr>))"
  by (auto simp: updateEncryptedStake_def update_def Let_def FHE_isInitialized_def FHE_allowThis_def
      and_then_def split: sum.splits prod.splits)

lemma updateTotalEncryptedStake_update:
  "updateTotalEncryptedStake delta isAddition s =
     and_then (update (thisAddress s) [thisAddress s] (totalStakedCipher s) delta isAddition (fhe s))
       (\<lambda>(h, f). Inr (s\<lparr>totalStakedCipher := h, fhe := f\<rparr>))"
  by (auto simp: updateTotalEncryptedStake_def update_def Let_def FHE_isInitialized_def FHE_allowThis_def
      and_then_def split: sum.splits prod.splits)

lemma stake_eq_Inr:
  "stake reg sender amount s = Inr s' \<longleftrightarrow>
     amount \<noteq> 0 \<and> unat (stakes s sender) + unat amount < 2 ^ 256 \<and>
     unat (totalStaked s) + unat amount < 2 ^ 256 \<and>
     reg (ConfidentialTransferFrom sender (thisAddress s) (fresh (fhe s))) \<and>
     (\<exists>n1 n2 f.
        accumulate True (thisAddress s) (token s) sender amount (stakesCipher s sender)
          (totalStakedCipher s) (fhe s) = Inr (n1, n2, f) \<and>
        s' = s\<lparr>stakes := (stakes s)(sender := stakes s sender + ucast amount),
               stakesCipher := (stakesCipher s)(sender := n1),
               totalStaked := totalStaked s + ucast amount,
               totalStakedCipher := n2,
               fhe := f,
               calls := calls s @ [ConfidentialTransferFrom sender (thisAddress s) (fresh (fhe s))],
               events := events s @ [Staked sender (ucast amount)]\<rparr>)"
  by (auto simp: stake_def Let_def and_then_eq_Inr checked_add_def FHE_asEuint64_def
      updateEncryptedStake_update updateTotalEncryptedStake_update accumulate_def unat_ucast_amount)

lemma withdraw_eq_Inr:
  "withdraw reg sender amount s = Inr s' \<longleftrightarrow>
     amount \<noteq> 0 \<and> unat amount \<le> unat (stakes s sender) \<and>
     unat amount \<le> unat (totalStaked s) \<and>
     reg (ConfidentialTransfer sender (fresh (fhe s))) \<and>
     (\<exists>n1 n2 f.
        accumulate False (thisAddress s) (token s) sender amount (stakesCipher s sender)
          (totalStakedCipher s) (fhe s) = Inr (n1, n2, f) \<and>
        s' = s\<lparr>stakes := (stakes s)(sender := stakes s sender - ucast amount),
               stakesCipher := (stakesCipher s)(sender := n1),
               totalStaked := totalStaked s - ucast amount,
               totalStakedCipher := n2,
               fhe := f,
               calls := calls s @ [ConfidentialTransfer sender (fresh (fhe s))],
               events := events s @ [Withdrawn sender (ucast amount)]\<rparr>)"
  by (auto simp: withdraw_def Let_def and_then_eq_Inr checked_sub_def FHE_asEuint64_def
      updateEncryptedStake_update updateTotalEncryptedStake_update accumulate_def unat_ucast_amount
      word_less_nat_alt)

lemma accumulate_explicit:
  assumes "accumulate add self tok user amount cur tot f = Inr (n1, n2, f')"
  shows "n1 = (if cur = 0 then fresh f else Suc (fresh f))"
    and "n2 = (if tot = 0 then fresh f else if cur = 0 then Suc (fresh f) else Suc (Suc (fresh f)))"
    and "issued f' = (if tot = 0 then (if cur = 0 then fresh f else Suc (fresh f)) else n2)"
    and "persistent f' =
        {(fresh f, tok), (fresh f, self), (n2, self), (n1, self), (n1, user)} \<union> persistent f"
    and "trace f' = trace f @ [TrivialEncrypt self amount (fresh f)] @
           accumulate_ops self [self, user] cur (fresh f) add n1 @
           accumulate_ops self [self] tot (fresh f) add n2 @
           [Allow self (fresh f) self, Allow self (fresh f) tok]"
proof -
  from assms obtain f1 f2 where
    u1: "update self [self, user] cur (fresh f) add
          (issue self amount (TrivialEncrypt self amount (fresh f)) f) = Inr (n1, f1)" and
    u2: "update self [self] tot (fresh f) add f1 = Inr (n2, f2)" and
    f': "f' = grant self (fresh f) tok (grant self (fresh f) self f2)"
    by (auto simp: accumulate_eq_Inr)
  from update_handle [OF u1] show n1: "n1 = (if cur = 0 then fresh f else Suc (fresh f))"
    by simp
  from update_issued [OF u1] have i1: "issued f1 = (if cur = 0 then fresh f else Suc (fresh f))"
    by simp
  from update_handle [OF u2] i1
  show n2: "n2 = (if tot = 0 then fresh f else if cur = 0 then Suc (fresh f) else Suc (Suc (fresh f)))"
    by (simp add: fresh_def)
  from update_issued [OF u2] i1 n2 f'
  show "issued f' = (if tot = 0 then (if cur = 0 then fresh f else Suc (fresh f)) else n2)"
    by (simp add: fresh_def)
  from update_persistent [OF u1] update_persistent [OF u2] f'
  show "persistent f' =
        {(fresh f, tok), (fresh f, self), (n2, self), (n1, self), (n1, user)} \<union> persistent f"
    by auto
  from update_trace [OF u1] update_trace [OF u2] f'
  show "trace f' = trace f @ [TrivialEncrypt self amount (fresh f)] @
           accumulate_ops self [self, user] cur (fresh f) add n1 @
           accumulate_ops self [self] tot (fresh f) add n2 @
           [Allow self (fresh f) self, Allow self (fresh f) tok]"
    by simp
qed

lemma accumulate_extends:
  assumes "accumulate add self tok user amount cur tot f = Inr (n1, n2, f')"
  shows "extends f f'"
proof -
  from assms obtain f1 f2 where
    u1: "update self [self, user] cur (fresh f) add
          (issue self amount (TrivialEncrypt self amount (fresh f)) f) = Inr (n1, f1)" and
    u2: "update self [self] tot (fresh f) add f1 = Inr (n2, f2)" and
    f': "f' = grant self (fresh f) tok (grant self (fresh f) self f2)"
    by (auto simp: accumulate_eq_Inr)
  have "extends f f1"
    by (rule extends_trans [OF extends_issue update_extends [OF u1]])
  then have "extends f f2"
    by (rule extends_trans [OF _ update_extends [OF u2]])
  moreover have "extends f2 f'"
    unfolding f' by (rule extends_trans [OF extends_grant extends_grant])
  ultimately show ?thesis by (rule extends_trans)
qed

lemma accumulate_ciphertexts:
  assumes "accumulate add self tok user amount cur tot f = Inr (n1, n2, f')"
    and "cur \<le> issued f" and "tot \<le> issued f"
  shows "ciphertexts f' (fresh f) = Some amount"
    and "cur \<noteq> 0 \<Longrightarrow>
      \<exists>x. ciphertexts f cur = Some x \<and> ciphertexts f' n1 = Some (combine add x amount)"
    and "tot \<noteq> 0 \<Longrightarrow>
      \<exists>t. ciphertexts f tot = Some t \<and> ciphertexts f' n2 = Some (combine add t amount)"
proof -
  let ?f0 = "issue self amount (TrivialEncrypt self amount (fresh f)) f"
  from assms obtain f1 f2 where
    u1: "update self [self, user] cur (fresh f) add ?f0 = Inr (n1, f1)" and
    u2: "update self [self] tot (fresh f) add f1 = Inr (n2, f2)" and
    f': "f' = grant self (fresh f) tok (grant self (fresh f) self f2)"
    by (auto simp: accumulate_eq_Inr)
  have e1: "extends ?f0 f1" by (rule update_extends [OF u1])
  have e2: "extends f1 f2" by (rule update_extends [OF u2])
  have e02: "extends ?f0 f2" by (rule extends_trans [OF e1 e2])
  have ct': "ciphertexts f' = ciphertexts f2" by (simp add: f')
  have keep0: "ciphertexts f2 k = ciphertexts ?f0 k" if "k \<le> fresh f" for k
    using e02 that by (simp add: extends_def)
  have keep1: "ciphertexts f2 k = ciphertexts f1 k" if "k \<le> issued f1" for k
    using e2 that by (simp add: extends_def)
  show "ciphertexts f' (fresh f) = Some amount"
    using keep0 [of "fresh f"] by (simp add: ct')
  have cur_old: "ciphertexts ?f0 cur = ciphertexts f cur"
    using assms(2) by (simp add: fresh_def)
  have tot_old: "ciphertexts f1 tot = ciphertexts f tot"
    using assms(3) e1 by (simp add: extends_def fresh_def)
  have amt0: "ciphertexts ?f0 (fresh f) = Some amount" by simp
  have amt1: "ciphertexts f1 (fresh f) = Some amount"
    using e1 by (simp add: extends_def)
  show "\<exists>x. ciphertexts f cur = Some x \<and> ciphertexts f' n1 = Some (combine add x amount)"
    if "cur \<noteq> 0"
  proof -
    from update_combined [OF u1 that] cur_old amt0 obtain x where
      x: "ciphertexts f cur = Some x" "ciphertexts f1 n1 = Some (combine add x amount)"
      by auto
    from update_handle [OF u1] update_issued [OF u1] that have "n1 \<le> issued f1" by simp
    with x keep1 [of n1] show ?thesis by (simp add: ct')
  qed
  show "\<exists>t. ciphertexts f tot = Some t \<and> ciphertexts f' n2 = Some (combine add t amount)"
    if "tot \<noteq> 0"
    using update_combined [OF u2 that] tot_old amt1 by (auto simp: ct')
qed

lemma accumulate_succeeds:
  assumes "cur \<le> issued f" and "tot \<le> issued f"
    and "cur \<noteq> 0 \<Longrightarrow> FHE_isAllowed cur self f \<and> ciphertexts f cur \<noteq> None"
    and "tot \<noteq> 0 \<Longrightarrow> FHE_isAllowed tot self f \<and> ciphertexts f tot \<noteq> None"
  shows "\<exists>n1 n2 f'. accumulate add self tok user amount cur tot f = Inr (n1, n2, f')"
proof -
  let ?f0 = "issue self amount (TrivialEncrypt self amount (fresh f)) f"
  have "\<exists>n f'. update self [self, user] cur (fresh f) add ?f0 = Inr (n, f')"
    using assms(1,3) by (intro update_succeeds) (auto simp: isAllowed_issue fresh_def)
  then obtain n1 f1 where u1: "update self [self, user] cur (fresh f) add ?f0 = Inr (n1, f1)"
    by blast
  have e1: "extends ?f0 f1" by (rule update_extends [OF u1])
  have e01: "extends f f1" by (rule extends_trans [OF extends_issue e1])
  have a1: "FHE_isAllowed (fresh f) self f1"
    using e1 by (auto simp: extends_def FHE_isAllowed_def)
  have c1: "ciphertexts f1 (fresh f) = Some amount"
    using e1 by (simp add: extends_def)
  have t1: "FHE_isAllowed tot self f1 \<and> ciphertexts f1 tot \<noteq> None" if "tot \<noteq> 0"
    using assms(4) [OF that] assms(2) e01 by (auto simp: extends_def FHE_isAllowed_def)
  have "\<exists>n f'. update self [self] tot (fresh f) add f1 = Inr (n, f')"
    using a1 c1 t1 by (intro update_succeeds) auto
  then obtain n2 f2 where u2: "update self [self] tot (fresh f) add f1 = Inr (n2, f2)"
    by blast
  have "FHE_isAllowed (fresh f) self f2"
    using a1 update_extends [OF u2] by (auto simp: extends_def FHE_isAllowed_def)
  with u1 u2 show ?thesis
    by (auto simp: accumulate_eq_Inr)
qed

section \<open>The encrypted mirrors in the states of a deployed vault\<close>

lemma mirrors_extends: "mirrors f self h v \<Longrightarrow> extends f f' \<Longrightarrow> mirrors f' self h v"
  by (auto simp: mirrors_def extends_def decrypt_def split: if_splits)

lemma accumulate_mirrors:
  assumes acc: "accumulate add self tok user amount cur tot f = Inr (n1, n2, f')"
    and cur: "mirrors f self cur v" and tot: "mirrors f self tot t"
    and v': "ucast v' = (if cur = 0 then amount else combine add (ucast v) amount)"
    and t': "ucast t' = (if tot = 0 then amount else combine add (ucast t) amount)"
  shows "mirrors f' self n1 v'" and "mirrors f' self n2 t'"
proof -
  note ex = accumulate_explicit [OF acc]
  from cur tot have le: "cur \<le> issued f" "tot \<le> issued f"
    by (simp_all add: mirrors_def)
  note ct = accumulate_ciphertexts [OF acc le]
  have n1: "n1 \<noteq> 0" "n1 \<le> issued f'" "(n1, self) \<in> persistent f'"
    using ex by (auto simp: fresh_def)
  have n2: "n2 \<noteq> 0" "n2 \<le> issued f'" "(n2, self) \<in> persistent f'"
    using ex by (auto simp: fresh_def)
  have "decrypt f' n1 = Some (ucast v')"
  proof (cases "cur = 0")
    case True
    with ex(1) ct(1) v' show ?thesis by (simp add: decrypt_def)
  next
    case False
    with ct(2) cur v' show ?thesis by (auto simp: decrypt_def mirrors_def)
  qed
  with n1 show "mirrors f' self n1 v'" by (simp add: mirrors_def)
  have "decrypt f' n2 = Some (ucast t')"
  proof (cases "tot = 0")
    case True
    with ex(2) ct(1) t' show ?thesis by (simp add: decrypt_def)
  next
    case False
    with ct(3) tot t' show ?thesis by (auto simp: decrypt_def mirrors_def)
  qed
  with n2 show "mirrors f' self n2 t'" by (simp add: mirrors_def)
qed

lemma stake_consistent:
  assumes "consistent s" and "stake reg sender amount s = Inr s'"
  shows "consistent s'"
proof -
  from assms(2) obtain n1 n2 f where
    acc: "accumulate True (thisAddress s) (token s) sender amount (stakesCipher s sender)
          (totalStakedCipher s) (fhe s) = Inr (n1, n2, f)" and
    s': "s' = s\<lparr>stakes := (stakes s)(sender := stakes s sender + ucast amount),
               stakesCipher := (stakesCipher s)(sender := n1),
               totalStaked := totalStaked s + ucast amount,
               totalStakedCipher := n2,
               fhe := f,
               calls := calls s @ [ConfidentialTransferFrom sender (thisAddress s) (fresh (fhe s))],
               events := events s @ [Staked sender (ucast amount)]\<rparr>"
    by (auto simp: stake_eq_Inr)
  from assms(1) have cur: "mirrors (fhe s) (thisAddress s) (stakesCipher s a) (stakes s a)" for a
    by (simp add: consistent_def)
  from assms(1) have tot: "mirrors (fhe s) (thisAddress s) (totalStakedCipher s) (totalStaked s)"
    by (simp add: consistent_def)
  have v': "(ucast (stakes s sender + ucast amount) :: uint64) =
      (if stakesCipher s sender = 0 then amount
       else combine True (ucast (stakes s sender)) amount)"
    using cur [of sender] by (auto simp: mirrors_def ucast_down_add combine_def)
  have t': "(ucast (totalStaked s + ucast amount) :: uint64) =
      (if totalStakedCipher s = 0 then amount
       else combine True (ucast (totalStaked s)) amount)"
    using tot by (auto simp: mirrors_def ucast_down_add combine_def)
  note m = accumulate_mirrors [OF acc cur [of sender] tot v' t']
  have "mirrors f (thisAddress s) (stakesCipher s a) (stakes s a)" for a
    by (rule mirrors_extends [OF cur accumulate_extends [OF acc]])
  with m show ?thesis
    by (simp add: consistent_def s')
qed

lemma withdraw_consistent:
  assumes "consistent s" and "withdraw reg sender amount s = Inr s'"
  shows "consistent s'"
proof -
  from assms(2) obtain n1 n2 f where
    amount: "amount \<noteq> 0" "unat amount \<le> unat (stakes s sender)"
      "unat amount \<le> unat (totalStaked s)" and
    acc: "accumulate False (thisAddress s) (token s) sender amount (stakesCipher s sender)
          (totalStakedCipher s) (fhe s) = Inr (n1, n2, f)" and
    s': "s' = s\<lparr>stakes := (stakes s)(sender := stakes s sender - ucast amount),
               stakesCipher := (stakesCipher s)(sender := n1),
               totalStaked := totalStaked s - ucast amount,
               totalStakedCipher := n2,
               fhe := f,
               calls := calls s @ [ConfidentialTransfer sender (fresh (fhe s))],
               events := events s @ [Withdrawn sender (ucast amount)]\<rparr>"
    by (auto simp: withdraw_eq_Inr)
  from assms(1) have cur: "mirrors (fhe s) (thisAddress s) (stakesCipher s a) (stakes s a)" for a
    by (simp add: consistent_def)
  from assms(1) have tot: "mirrors (fhe s) (thisAddress s) (totalStakedCipher s) (totalStaked s)"
    by (simp add: consistent_def)
  from amount have pos: "unat amount \<noteq> 0"
    by (simp add: unat_eq_0)
  have v': "(ucast (stakes s sender - ucast amount) :: uint64) =
      (if stakesCipher s sender = 0 then amount
       else combine False (ucast (stakes s sender)) amount)"
    using cur [of sender] amount(2) pos by (auto simp: mirrors_def ucast_down_sub combine_def)
  have t': "(ucast (totalStaked s - ucast amount) :: uint64) =
      (if totalStakedCipher s = 0 then amount
       else combine False (ucast (totalStaked s)) amount)"
    using tot amount(3) pos by (auto simp: mirrors_def ucast_down_sub combine_def)
  note m = accumulate_mirrors [OF acc cur [of sender] tot v' t']
  have "mirrors f (thisAddress s) (stakesCipher s a) (stakes s a)" for a
    by (rule mirrors_extends [OF cur accumulate_extends [OF acc]])
  with m show ?thesis
    by (simp add: consistent_def s')
qed

lemma mirrors_transient [simp]: "mirrors (f\<lparr>transient := t\<rparr>) self h v = mirrors f self h v"
  by (simp add: mirrors_def decrypt_def)

lemma endTransaction_consistent: "consistent s \<Longrightarrow> consistent (endTransaction s)"
  by (simp add: consistent_def endTransaction_def)

lemma constructor_consistent: "constructor self tokenAddress = Inr s \<Longrightarrow> consistent s"
  by (auto simp: constructor_def consistent_def mirrors_def split: if_splits)

lemma reachable_consistent: "reachable s \<Longrightarrow> consistent s"
  by (induction rule: reachable.induct)
    (auto intro: constructor_consistent stake_consistent withdraw_consistent
      endTransaction_consistent)

section \<open>Conservation of the plaintext total\<close>

lemma sum_stakes_update:
  fixes g :: "address \<Rightarrow> uint256"
  shows "(\<Sum>a\<in>UNIV. unat ((g(x := w)) a)) + unat (g x) = (\<Sum>a\<in>UNIV. unat (g a)) + unat w"
proof -
  have fin: "finite (UNIV :: address set)" by simp
  have "(\<Sum>a\<in>UNIV. unat ((g(x := w)) a)) = unat w + (\<Sum>a\<in>UNIV - {x}. unat ((g(x := w)) a))"
    using sum.remove [OF fin, of x "\<lambda>a. unat ((g(x := w)) a)"] by simp
  moreover have "(\<Sum>a\<in>UNIV - {x}. unat ((g(x := w)) a)) = (\<Sum>a\<in>UNIV - {x}. unat (g a))"
    by (rule sum.cong) auto
  moreover have "(\<Sum>a\<in>UNIV. unat (g a)) = unat (g x) + (\<Sum>a\<in>UNIV - {x}. unat (g a))"
    using sum.remove [OF fin, of x "\<lambda>a. unat (g a)"] by simp
  ultimately show ?thesis by simp
qed

lemma stake_le_sum:
  fixes g :: "address \<Rightarrow> uint256"
  shows "unat (g x) \<le> (\<Sum>a\<in>UNIV. unat (g a))"
proof -
  have fin: "finite (UNIV :: address set)" by simp
  show ?thesis using sum.remove [OF fin, of x "\<lambda>a. unat (g a)"] by simp
qed

lemma unat_checked_add:
  "unat (v :: uint256) + unat (a :: uint64) < 2 ^ 256 \<Longrightarrow> unat (v + ucast a) = unat v + unat a"
  using unat_add_lem [of v "ucast a"] by (simp add: unat_ucast_amount)

lemma unat_checked_sub:
  "unat (a :: uint64) \<le> unat (v :: uint256) \<Longrightarrow> unat (v - ucast a) = unat v - unat a"
  using unat_sub [of "ucast a" v] by (simp add: word_le_nat_alt unat_ucast_amount)

lemma stake_plain:
  assumes "stake reg sender amount s = Inr s'"
  shows "amount \<noteq> 0"
    and "stakes s' = (stakes s)(sender := stakes s sender + ucast amount)"
    and "totalStaked s' = totalStaked s + ucast amount"
    and "unat (stakes s' sender) = unat (stakes s sender) + unat amount"
    and "unat (totalStaked s') = unat (totalStaked s) + unat amount"
    and "events s' = events s @ [Staked sender (ucast amount)]"
    and "calls s' = calls s @ [ConfidentialTransferFrom sender (thisAddress s) (fresh (fhe s))]"
    and "thisAddress s' = thisAddress s" and "token s' = token s"
  using assms by (auto simp: stake_eq_Inr unat_checked_add)

lemma withdraw_plain:
  assumes "withdraw reg sender amount s = Inr s'"
  shows "amount \<noteq> 0"
    and "unat amount \<le> unat (stakes s sender)"
    and "unat amount \<le> unat (totalStaked s)"
    and "stakes s' = (stakes s)(sender := stakes s sender - ucast amount)"
    and "totalStaked s' = totalStaked s - ucast amount"
    and "unat (stakes s' sender) = unat (stakes s sender) - unat amount"
    and "unat (totalStaked s') = unat (totalStaked s) - unat amount"
    and "events s' = events s @ [Withdrawn sender (ucast amount)]"
    and "calls s' = calls s @ [ConfidentialTransfer sender (fresh (fhe s))]"
    and "thisAddress s' = thisAddress s" and "token s' = token s"
  using assms by (auto simp: withdraw_eq_Inr unat_checked_sub)

lemma stake_conserved:
  assumes "conserved s" and "stake reg sender amount s = Inr s'"
  shows "conserved s'"
proof -
  note p = stake_plain [OF assms(2)]
  have "(\<Sum>a\<in>UNIV. unat (stakes s' a)) + unat (stakes s sender) =
      (\<Sum>a\<in>UNIV. unat (stakes s a)) + unat (stakes s' sender)"
    using sum_stakes_update [of "stakes s" sender "stakes s sender + ucast amount"] p(2)
    by simp
  with p(4,5) assms(1) show ?thesis by (simp add: conserved_def)
qed

lemma withdraw_conserved:
  assumes "conserved s" and "withdraw reg sender amount s = Inr s'"
  shows "conserved s'"
proof -
  note p = withdraw_plain [OF assms(2)]
  have "(\<Sum>a\<in>UNIV. unat (stakes s' a)) + unat (stakes s sender) =
      (\<Sum>a\<in>UNIV. unat (stakes s a)) + unat (stakes s' sender)"
    using sum_stakes_update [of "stakes s" sender "stakes s sender - ucast amount"] p(4)
    by simp
  with p(2,3,6,7) assms(1) show ?thesis by (simp add: conserved_def)
qed

lemma constructor_conserved: "constructor self tokenAddress = Inr s \<Longrightarrow> conserved s"
  by (auto simp: constructor_def conserved_def split: if_splits)

lemma endTransaction_conserved: "conserved s \<Longrightarrow> conserved (endTransaction s)"
  by (simp add: conserved_def endTransaction_def)

lemma reachable_conserved: "reachable s \<Longrightarrow> conserved s"
  by (induction rule: reachable.induct)
    (auto intro: constructor_conserved stake_conserved withdraw_conserved
      endTransaction_conserved)

lemma conserved_stake_le_total: "conserved s \<Longrightarrow> unat (stakes s a) \<le> unat (totalStaked s)"
  by (simp add: conserved_def stake_le_sum)

section \<open>When a call succeeds, and how it fails\<close>

lemma consistent_accumulate_succeeds:
  assumes "consistent s"
  shows "\<exists>n1 n2 f. accumulate add (thisAddress s) (token s) sender amount (stakesCipher s sender)
          (totalStakedCipher s) (fhe s) = Inr (n1, n2, f)"
proof -
  from assms have cur: "mirrors (fhe s) (thisAddress s) (stakesCipher s sender) (stakes s sender)"
    by (simp add: consistent_def)
  from assms have tot: "mirrors (fhe s) (thisAddress s) (totalStakedCipher s) (totalStaked s)"
    by (simp add: consistent_def)
  show ?thesis
    using cur tot
    by (intro accumulate_succeeds) (auto simp: mirrors_def FHE_isAllowed_def decrypt_def)
qed

lemma stake_succeeds:
  assumes "consistent s" and "amount \<noteq> 0"
    and "unat (stakes s sender) + unat amount < 2 ^ 256"
    and "unat (totalStaked s) + unat amount < 2 ^ 256"
    and "reg (ConfidentialTransferFrom sender (thisAddress s) (fresh (fhe s)))"
  shows "\<exists>s'. stake reg sender amount s = Inr s'"
  using consistent_accumulate_succeeds [OF assms(1), of True sender amount] assms(2-)
  by (auto simp: stake_eq_Inr)

lemma withdraw_succeeds:
  assumes "consistent s" and "conserved s" and "amount \<noteq> 0"
    and "unat amount \<le> unat (stakes s sender)"
    and "reg (ConfidentialTransfer sender (fresh (fhe s)))"
  shows "\<exists>s'. withdraw reg sender amount s = Inr s'"
proof -
  from conserved_stake_le_total [OF assms(2), of sender] assms(4)
  have "unat amount \<le> unat (totalStaked s)" by simp
  with consistent_accumulate_succeeds [OF assms(1), of False sender amount] assms(3-)
  show ?thesis by (auto simp: withdraw_eq_Inr)
qed

lemma update_Inl: "update c ps cur delta add f = Inl e \<Longrightarrow> e = EngineRejected"
proof -
  have g: "grant_decrypt c h ps f = Inl e \<Longrightarrow> e = EngineRejected" for h f
    by (induction ps arbitrary: f)
       (auto simp: and_then_eq_Inl FHE_allow_def split: if_splits)
  show "update c ps cur delta add f = Inl e \<Longrightarrow> e = EngineRejected"
    by (auto simp: update_def and_then_eq_Inl FHE_add_def FHE_sub_def dest: g
        split: if_splits option.splits)
qed

lemma accumulate_Inl:
  "accumulate add self tok user amount cur tot f = Inl e \<Longrightarrow> e = EngineRejected"
  by (auto simp: accumulate_def and_then_eq_Inl FHE_allow_def dest: update_Inl split: if_splits)

lemma stake_unfold:
  "stake reg sender amount s =
     (if amount = 0 then Inl InvalidAmount
      else if \<not> unat (stakes s sender) + unat amount < 2 ^ 256 then Inl (Panic 17)
      else if \<not> unat (totalStaked s) + unat amount < 2 ^ 256 then Inl (Panic 17)
      else and_then
        (accumulate True (thisAddress s) (token s) sender amount (stakesCipher s sender)
          (totalStakedCipher s) (fhe s))
        (\<lambda>(n1, n2, f).
          if \<not> reg (ConfidentialTransferFrom sender (thisAddress s) (fresh (fhe s)))
          then Inl TransferReverted
          else Inr (s\<lparr>stakes := (stakes s)(sender := stakes s sender + ucast amount),
               stakesCipher := (stakesCipher s)(sender := n1),
               totalStaked := totalStaked s + ucast amount,
               totalStakedCipher := n2,
               fhe := f,
               calls := calls s @ [ConfidentialTransferFrom sender (thisAddress s) (fresh (fhe s))],
               events := events s @ [Staked sender (ucast amount)]\<rparr>)))"
  by (auto simp: stake_def Let_def checked_add_def FHE_asEuint64_def
      updateEncryptedStake_update updateTotalEncryptedStake_update accumulate_def unat_ucast_amount
      and_then_def split: sum.splits prod.splits)

lemma withdraw_unfold:
  "withdraw reg sender amount s =
     (if amount = 0 then Inl InvalidAmount
      else if unat (stakes s sender) < unat amount then Inl InsufficientStake
      else if unat (totalStaked s) < unat amount then Inl (Panic 17)
      else and_then
        (accumulate False (thisAddress s) (token s) sender amount (stakesCipher s sender)
          (totalStakedCipher s) (fhe s))
        (\<lambda>(n1, n2, f).
          if \<not> reg (ConfidentialTransfer sender (fresh (fhe s)))
          then Inl TransferReverted
          else Inr (s\<lparr>stakes := (stakes s)(sender := stakes s sender - ucast amount),
               stakesCipher := (stakesCipher s)(sender := n1),
               totalStaked := totalStaked s - ucast amount,
               totalStakedCipher := n2,
               fhe := f,
               calls := calls s @ [ConfidentialTransfer sender (fresh (fhe s))],
               events := events s @ [Withdrawn sender (ucast amount)]\<rparr>)))"
  by (auto simp: withdraw_def Let_def checked_sub_def FHE_asEuint64_def
      updateEncryptedStake_update updateTotalEncryptedStake_update accumulate_def unat_ucast_amount
      word_less_nat_alt and_then_def split: sum.splits prod.splits)

section \<open>The scenarios, evaluated\<close>

lemmas eval_defs =
  stake_def withdraw_def updateEncryptedStake_def updateTotalEncryptedStake_def Let_def
  checked_add_def checked_sub_def FHE_asEuint64_def FHE_add_def FHE_sub_def FHE_allow_def
  FHE_allowThis_def FHE_isAllowed_def FHE_isInitialized_def fresh_def issue_def grant_def
  constructor_def empty_fhevm_def deployFixture_def alice_def bob_def accepting_def
  rejecting_def getStake_def getTotalStaked_def getStakeCipher_def getTotalStakedCipher_def
  decrypt_def endTransaction_def execute_def transact_def

lemma deployFixture_reachable: "reachable deployFixture"
  unfolding deployFixture_def
  by (rule reachable.deployed [of 4096 8192]) (simp add: constructor_def)

lemma scenarioA_run: "stake accepting alice 5000000 deployFixture = Inr scenarioA"
  by (simp add: scenarioA_def eval_defs)

lemma scenarioA_reachable: "reachable scenarioA"
  by (rule reachable.staked [OF deployFixture_reachable scenarioA_run])

lemma scenarioA_plain:
  "stakes scenarioA alice = 5000000" "totalStaked scenarioA = 5000000"
  by (simp_all add: scenarioA_def eval_defs)

lemma scenarioB_run: "withdraw accepting alice 2000000 (endTransaction scenarioA) = Inr scenarioB"
  by (simp add: scenarioB_def scenarioA_def eval_defs)

lemma overflowA_run: "stake accepting alice 9223372036854775808 deployFixture = Inr overflowA"
  by (simp add: overflowA_def eval_defs)

lemma overflowB_run:
  "stake accepting alice 9223372036854775808 (endTransaction overflowA) = Inr overflowB"
  by (simp add: overflowB_def overflowA_def eval_defs)

lemma overflowB_reachable: "reachable overflowB"
  by (rule reachable.staked [OF reachable.committed
        [OF reachable.staked [OF deployFixture_reachable overflowA_run]] overflowB_run])

lemma overflowB_values:
  "unat (stakes overflowB alice) = 18446744073709551616"
  "decrypt (fhe overflowB) (stakesCipher overflowB alice) = Some 0"
  "stakesCipher overflowB alice \<noteq> 0"
  by (simp_all add: overflowB_def overflowA_def eval_defs)

lemma bobDeposit_run: "stake accepting bob 1000000 (endTransaction scenarioA) = Inr bobDeposit"
  by (simp add: bobDeposit_def scenarioA_def eval_defs)

lemma bobWithdraw_run: "withdraw accepting bob 400000 (endTransaction bobDeposit) = Inr bobWithdraw"
  by (simp add: bobWithdraw_def bobDeposit_def scenarioA_def eval_defs)

lemma bobDeposit_reachable: "reachable (endTransaction bobDeposit)"
  by (rule reachable.committed [OF reachable.staked
        [OF reachable.committed [OF scenarioA_reachable] bobDeposit_run]])

lemmas update_eval = update_def and_then_def

section \<open>Deposits\<close>

text \<open>
  C4. A successful \<^verbatim>\<open>stake(amount)\<close> by an account has a positive amount, increases the
  plaintext stake of the account by exactly the amount and the plaintext total by exactly
  the amount (no wrap-around), and emits \<^verbatim>\<open>Staked(account, amount)\<close> with the amount in
  plaintext.
\<close>

theorem stake_adds_amount:
  assumes "stake reg sender amount s = Inr s'"
  shows "0 < unat amount \<and>
    unat (getStake s' sender) = unat (getStake s sender) + unat amount \<and>
    unat (getTotalStaked s') = unat (getTotalStaked s) + unat amount \<and>
    events s' = events s @ [Staked sender (ucast amount)] \<and>
    unat (ucast amount :: uint256) = unat amount"
  using stake_plain [OF assms]
  by (simp add: getStake_def getTotalStaked_def unat_ucast_amount unat_gt_0)

theorem stake_adds_amount_witness:
  "stake accepting alice 5000000 deployFixture =
      Inr (projr (stake accepting alice 5000000 deployFixture)) \<and>
   unat (getStake (projr (stake accepting alice 5000000 deployFixture)) alice) = 5000000 \<and>
   unat (getTotalStaked (projr (stake accepting alice 5000000 deployFixture))) = 5000000 \<and>
   events (projr (stake accepting alice 5000000 deployFixture)) = [Staked alice 5000000] \<and>
   decrypt (fhe (projr (stake accepting alice 5000000 deployFixture)))
     (getStakeCipher (projr (stake accepting alice 5000000 deployFixture)) alice) = Some 5000000"
proof -
  have run: "stake accepting alice 5000000 deployFixture =
      Inr (projr (stake accepting alice 5000000 deployFixture))"
    by (simp add: eval_defs)
  have "unat (getStake deployFixture alice) = 0" "unat (getTotalStaked deployFixture) = 0"
    "events deployFixture = []"
    by (simp_all add: eval_defs)
  moreover have "decrypt (fhe (projr (stake accepting alice 5000000 deployFixture)))
     (getStakeCipher (projr (stake accepting alice 5000000 deployFixture)) alice) = Some 5000000"
    by (simp add: eval_defs)
  ultimately show ?thesis
    using stake_adds_amount [OF run] run by simp
qed

section \<open>Conservation, and the subtraction from the total\<close>

lemma execute_Stake [simp]: "execute reg sender (Stake amount) s = stake reg sender amount s"
  by (simp add: execute_def)

lemma execute_Withdraw [simp]: "execute reg sender (Withdraw amount) s = withdraw reg sender amount s"
  by (simp add: execute_def)

lemma execute_conserved:
  "conserved s \<Longrightarrow> execute reg sender c s = Inr s' \<Longrightarrow> conserved s'"
  by (cases c) (auto intro: stake_conserved withdraw_conserved)

text \<open>
  C3. In every state of a deployed vault the plaintext total is the sum of the plaintext
  stakes of all accounts, and every successful \<^verbatim>\<open>stake\<close> and \<^verbatim>\<open>withdraw\<close> preserves this.
\<close>

theorem total_is_sum_of_stakes:
  "(reachable s \<longrightarrow> unat (getTotalStaked s) = (\<Sum>a\<in>UNIV. unat (getStake s a))) \<and>
   (conserved t \<longrightarrow> execute reg sender c t = Inr t' \<longrightarrow> conserved t')"
  using reachable_conserved [of s] execute_conserved [of t reg sender c t']
  by (auto simp: conserved_def getTotalStaked_def getStake_def)

theorem total_is_sum_of_stakes_witness:
  "reachable scenarioA \<and>
   unat (getTotalStaked scenarioA) = (\<Sum>a\<in>UNIV. unat (getStake scenarioA a)) \<and>
   conserved deployFixture \<and>
   execute accepting alice (Stake 5000000) deployFixture = Inr scenarioA \<and>
   conserved scenarioA \<and>
   conserved (endTransaction scenarioA) \<and>
   execute accepting alice (Withdraw 2000000) (endTransaction scenarioA) = Inr scenarioB \<and>
   conserved scenarioB"
proof -
  have c0: "conserved deployFixture"
    by (simp add: conserved_def deployFixture_def constructor_def)
  have r1: "execute accepting alice (Stake 5000000) deployFixture = Inr scenarioA"
    by (simp add: scenarioA_run)
  have r2: "execute accepting alice (Withdraw 2000000) (endTransaction scenarioA) = Inr scenarioB"
    by (simp add: scenarioB_run)
  from total_is_sum_of_stakes [of scenarioA deployFixture accepting alice "Stake 5000000" scenarioA]
    c0 r1 scenarioA_reachable
  have a: "unat (getTotalStaked scenarioA) = (\<Sum>a\<in>UNIV. unat (getStake scenarioA a))"
    "conserved scenarioA"
    by simp_all
  then have c1: "conserved (endTransaction scenarioA)"
    by (simp add: endTransaction_conserved)
  from total_is_sum_of_stakes [of scenarioA "endTransaction scenarioA" accepting alice
      "Withdraw 2000000" scenarioB] c1 r2
  have "conserved scenarioB" by simp
  with a c0 c1 r1 r2 scenarioA_reachable show ?thesis by simp
qed

text \<open>
  C10. In every state of a deployed vault, an amount that passes the per-account check of
  \<^verbatim>\<open>withdraw\<close> (at most the plaintext stake of the caller) is at most the plaintext
  total: the checked subtraction \<^verbatim>\<open>_totalStaked -= amount\<close> returns the difference, and
  \<^verbatim>\<open>withdraw\<close> never reverts with an arithmetic panic.
\<close>

theorem total_subtraction_never_underflows:
  assumes "reachable s" and "unat amount \<le> unat (stakes s sender)"
  shows "unat amount \<le> unat (totalStaked s) \<and>
    checked_sub (totalStaked s) (ucast amount) = Inr (totalStaked s - ucast amount) \<and>
    withdraw reg sender amount s \<noteq> Inl (Panic k)"
proof -
  from conserved_stake_le_total [OF reachable_conserved [OF assms(1)], of sender] assms(2)
  have le: "unat amount \<le> unat (totalStaked s)" by simp
  have "withdraw reg sender amount s \<noteq> Inl (Panic k)"
    using le assms(2)
    by (auto simp: withdraw_unfold and_then_eq_Inl dest: accumulate_Inl split: if_splits)
  with le show ?thesis
    by (simp add: checked_sub_def unat_ucast_amount)
qed

theorem total_subtraction_never_underflows_witness:
  "reachable scenarioA \<and> unat (2000000 :: uint64) \<le> unat (stakes scenarioA alice) \<and>
   unat (2000000 :: uint64) \<le> unat (totalStaked scenarioA) \<and>
   checked_sub (totalStaked scenarioA) (ucast (2000000 :: uint64)) = Inr 3000000 \<and>
   withdraw accepting alice 2000000 scenarioA \<noteq> Inl (Panic 17)"
proof -
  have le: "unat (2000000 :: uint64) \<le> unat (stakes scenarioA alice)"
    by (simp add: scenarioA_plain)
  from total_subtraction_never_underflows [OF scenarioA_reachable le, of accepting 17]
  show ?thesis
    using scenarioA_reachable le by (simp add: scenarioA_plain)
qed

section \<open>Validation of the amount\<close>

lemma withdraw_InsufficientStake_iff:
  "amount \<noteq> 0 \<Longrightarrow>
    withdraw reg sender amount s = Inl InsufficientStake \<longleftrightarrow>
      unat (stakes s sender) < unat amount"
  by (auto simp: withdraw_unfold and_then_eq_Inl dest: accumulate_Inl split: if_splits)

lemma withdraw_all:
  assumes "reachable s" and "amount \<noteq> 0" and "unat amount = unat (stakes s sender)"
    and "reg (ConfidentialTransfer sender (fresh (fhe s)))"
  shows "\<exists>s'. withdraw reg sender amount s = Inr s' \<and> stakes s' sender = 0"
proof -
  from assms(3) have le: "unat amount \<le> unat (stakes s sender)" by simp
  from withdraw_succeeds [of s amount sender reg] reachable_consistent [OF assms(1)]
    reachable_conserved [OF assms(1)] assms(2) le assms(4)
  obtain s' where s': "withdraw reg sender amount s = Inr s'" by blast
  from withdraw_plain(6) [OF s'] assms(3) have "unat (stakes s' sender) = 0" by simp
  then have "stakes s' sender = 0" by (simp add: unat_eq_0)
  with s' show ?thesis by blast
qed

text \<open>
  C5. \<^verbatim>\<open>stake(0)\<close> and \<^verbatim>\<open>withdraw(0)\<close> revert with \<^verbatim>\<open>InvalidAmount\<close> in every state, so
  nothing is written. For a positive amount, \<^verbatim>\<open>withdraw\<close> reverts with
  \<^verbatim>\<open>InsufficientStake\<close> exactly when the amount exceeds the plaintext stake of the
  caller. In a state of a deployed vault, withdrawing exactly the current (positive)
  stake succeeds when the token accepts the transfer, and leaves the stake of the account
  at zero: the mapping still answers, with zero, in that state and after the transaction.
\<close>

theorem amount_validation:
  "stake reg sender 0 s = Inl InvalidAmount \<and>
   withdraw reg sender 0 s = Inl InvalidAmount \<and>
   transact (stake reg sender 0) s = (Some InvalidAmount, s) \<and>
   transact (withdraw reg sender 0) s = (Some InvalidAmount, s) \<and>
   (amount \<noteq> 0 \<longrightarrow>
      (withdraw reg sender amount s = Inl InsufficientStake \<longleftrightarrow>
       unat (getStake s sender) < unat amount)) \<and>
   (reachable t \<longrightarrow> amount \<noteq> 0 \<longrightarrow> unat amount = unat (getStake t sender) \<longrightarrow>
      reg (ConfidentialTransfer sender (fresh (fhe t))) \<longrightarrow>
      (\<exists>t'. withdraw reg sender amount t = Inr t' \<and> getStake t' sender = 0 \<and>
         getStake (endTransaction t') sender = 0))"
proof -
  have zero: "stake reg sender 0 s = Inl InvalidAmount" "withdraw reg sender 0 s = Inl InvalidAmount"
    by (simp_all add: stake_def withdraw_def)
  then have tx: "transact (stake reg sender 0) s = (Some InvalidAmount, s)"
    "transact (withdraw reg sender 0) s = (Some InvalidAmount, s)"
    by (simp_all add: transact_def)
  have insufficient: "amount \<noteq> 0 \<longrightarrow>
      (withdraw reg sender amount s = Inl InsufficientStake \<longleftrightarrow>
       unat (getStake s sender) < unat amount)"
    by (simp add: withdraw_InsufficientStake_iff getStake_def)
  have all: "\<exists>t'. withdraw reg sender amount t = Inr t' \<and> getStake t' sender = 0 \<and>
         getStake (endTransaction t') sender = 0"
    if "reachable t" "amount \<noteq> 0" "unat amount = unat (getStake t sender)"
      "reg (ConfidentialTransfer sender (fresh (fhe t)))"
    using withdraw_all [of t amount sender reg] that
    by (auto simp: getStake_def endTransaction_def)
  from zero tx insufficient all show ?thesis by blast
qed

theorem amount_validation_witness:
  "stake accepting alice 0 scenarioA = Inl InvalidAmount \<and>
   withdraw accepting alice 0 scenarioA = Inl InvalidAmount \<and>
   (5000001 :: uint64) \<noteq> 0 \<and>
   withdraw accepting alice 5000001 scenarioA = Inl InsufficientStake \<and>
   unat (getStake scenarioA alice) < unat (5000001 :: uint64) \<and>
   (1 :: uint64) \<noteq> 0 \<and>
   withdraw accepting bob 1 scenarioA = Inl InsufficientStake \<and>
   reachable scenarioA \<and> (5000000 :: uint64) \<noteq> 0 \<and>
   unat (5000000 :: uint64) = unat (getStake scenarioA alice) \<and>
   accepting (ConfidentialTransfer alice (fresh (fhe scenarioA))) \<and>
   (\<exists>t'. withdraw accepting alice 5000000 scenarioA = Inr t' \<and> getStake t' alice = 0 \<and>
      getStake (endTransaction t') alice = 0)"
proof -
  have a: "unat (getStake scenarioA alice) < unat (5000001 :: uint64)"
    "unat (getStake scenarioA bob) < unat (1 :: uint64)"
    "unat (5000000 :: uint64) = unat (getStake scenarioA alice)"
    by (simp_all add: scenarioA_def eval_defs)
  have acc: "accepting (ConfidentialTransfer alice (fresh (fhe scenarioA)))"
    by (simp add: accepting_def)
  from amount_validation [of accepting alice scenarioA 5000001 scenarioA] a(1)
  have 1: "stake accepting alice 0 scenarioA = Inl InvalidAmount"
    "withdraw accepting alice 0 scenarioA = Inl InvalidAmount"
    "withdraw accepting alice 5000001 scenarioA = Inl InsufficientStake"
    by simp_all
  from amount_validation [of accepting bob scenarioA 1 scenarioA] a(2)
  have 2: "withdraw accepting bob 1 scenarioA = Inl InsufficientStake"
    by simp
  from amount_validation [of accepting alice scenarioA 5000000 scenarioA] a(3) acc
    scenarioA_reachable
  have 3: "\<exists>t'. withdraw accepting alice 5000000 scenarioA = Inr t' \<and> getStake t' alice = 0 \<and>
      getStake (endTransaction t') alice = 0"
    by simp
  from 1 2 3 a acc scenarioA_reachable show ?thesis by simp
qed

section \<open>A transfer the token rejects\<close>

lemma execute_unchanged_on_reject:
  assumes "\<not> reg (transfer_request c sender (thisAddress s) (fresh (fhe s)))"
  shows "\<exists>e. execute reg sender c s = Inl e"
proof (cases "execute reg sender c s")
  case (Inl e)
  then show ?thesis by blast
next
  case (Inr s')
  with assms show ?thesis
    by (cases c) (auto simp: transfer_request_def stake_eq_Inr withdraw_eq_Inr)
qed

lemma execute_TransferReverted:
  assumes "\<not> reg (transfer_request c sender (thisAddress s) (fresh (fhe s)))"
    and "reachable s" and "amount_of c \<noteq> 0"
    and "is_deposit c \<Longrightarrow> unat (stakes s sender) + unat (amount_of c) < 2 ^ 256 \<and>
          unat (totalStaked s) + unat (amount_of c) < 2 ^ 256"
    and "\<not> is_deposit c \<Longrightarrow> unat (amount_of c) \<le> unat (stakes s sender)"
  shows "execute reg sender c s = Inl TransferReverted"
proof (cases c)
  case (Stake amount)
  from consistent_accumulate_succeeds [OF reachable_consistent [OF assms(2)], of True sender amount]
  show ?thesis
    using assms(1,3,4) Stake
    by (auto simp: stake_unfold transfer_request_def amount_of_def is_deposit_def)
next
  case (Withdraw amount)
  from assms(5) Withdraw have le: "unat amount \<le> unat (stakes s sender)"
    by (simp add: is_deposit_def amount_of_def)
  with conserved_stake_le_total [OF reachable_conserved [OF assms(2)], of sender]
  have "unat amount \<le> unat (totalStaked s)" by simp
  with consistent_accumulate_succeeds [OF reachable_consistent [OF assms(2)], of False sender amount]
  show ?thesis
    using assms(1,3) Withdraw le
    by (auto simp: withdraw_unfold transfer_request_def amount_of_def)
qed

text \<open>
  C2. When the token rejects the transfer request of a \<^verbatim>\<open>stake\<close> or \<^verbatim>\<open>withdraw\<close> call,
  the call reverts and the transaction leaves the state it found: the plaintext stakes, the
  encrypted stake handles, the plaintext total and the encrypted total handle are those of
  before. In a state of a deployed vault, a call whose amount passes the checks of the
  contract reverts with the token's failure.
\<close>

theorem rejected_transfer_reverts_everything:
  assumes "\<not> reg (transfer_request c sender (thisAddress s) (fresh (fhe s)))"
  shows "(\<exists>e. execute reg sender c s = Inl e \<and> transact (execute reg sender c) s = (Some e, s)) \<and>
    stakes (snd (transact (execute reg sender c) s)) = stakes s \<and>
    stakesCipher (snd (transact (execute reg sender c) s)) = stakesCipher s \<and>
    totalStaked (snd (transact (execute reg sender c) s)) = totalStaked s \<and>
    totalStakedCipher (snd (transact (execute reg sender c) s)) = totalStakedCipher s \<and>
    (reachable s \<longrightarrow> amount_of c \<noteq> 0 \<longrightarrow>
      (is_deposit c \<longrightarrow> unat (stakes s sender) + unat (amount_of c) < 2 ^ 256 \<and>
          unat (totalStaked s) + unat (amount_of c) < 2 ^ 256) \<longrightarrow>
      (\<not> is_deposit c \<longrightarrow> unat (amount_of c) \<le> unat (stakes s sender)) \<longrightarrow>
      execute reg sender c s = Inl TransferReverted)"
proof -
  from execute_unchanged_on_reject [of reg c sender s] assms
  obtain e where e: "execute reg sender c s = Inl e"
    by blast
  then have "transact (execute reg sender c) s = (Some e, s)"
    by (simp add: transact_def)
  with e execute_TransferReverted [of reg c sender s] assms show ?thesis
    by auto
qed

theorem rejected_transfer_reverts_everything_witness:
  "\<not> rejecting (transfer_request (Withdraw 2000000) alice (thisAddress scenarioA)
        (fresh (fhe scenarioA))) \<and>
   reachable scenarioA \<and> amount_of (Withdraw 2000000) \<noteq> 0 \<and>
   \<not> is_deposit (Withdraw 2000000) \<and>
   unat (amount_of (Withdraw 2000000)) \<le> unat (stakes scenarioA alice) \<and>
   execute rejecting alice (Withdraw 2000000) scenarioA = Inl TransferReverted \<and>
   transact (execute rejecting alice (Withdraw 2000000)) scenarioA =
     (Some TransferReverted, scenarioA) \<and>
   \<not> rejecting (transfer_request (Stake 5000000) alice (thisAddress deployFixture)
        (fresh (fhe deployFixture))) \<and>
   transact (execute rejecting alice (Stake 5000000)) deployFixture =
     (Some TransferReverted, deployFixture)"
proof -
  have rej: "\<not> rejecting x" for x by (simp add: rejecting_def)
  have side: "amount_of (Withdraw 2000000) \<noteq> 0" "\<not> is_deposit (Withdraw 2000000)"
    "unat (amount_of (Withdraw 2000000)) \<le> unat (stakes scenarioA alice)"
    by (simp_all add: amount_of_def is_deposit_def scenarioA_plain)
  from rejected_transfer_reverts_everything [of rejecting "Withdraw 2000000" alice scenarioA]
    rej side scenarioA_reachable
  have 1: "execute rejecting alice (Withdraw 2000000) scenarioA = Inl TransferReverted"
    "transact (execute rejecting alice (Withdraw 2000000)) scenarioA =
     (Some TransferReverted, scenarioA)"
    by auto
  have side2: "amount_of (Stake 5000000) \<noteq> 0" "is_deposit (Stake 5000000)"
    "unat (stakes deployFixture alice) + unat (amount_of (Stake 5000000)) < 2 ^ 256"
    "unat (totalStaked deployFixture) + unat (amount_of (Stake 5000000)) < 2 ^ 256"
    by (simp_all add: amount_of_def is_deposit_def deployFixture_def constructor_def)
  from rejected_transfer_reverts_everything [of rejecting "Stake 5000000" alice deployFixture]
    rej side2 deployFixture_reachable
  have 2: "transact (execute rejecting alice (Stake 5000000)) deployFixture =
     (Some TransferReverted, deployFixture)"
    by auto
  from 1 2 rej side scenarioA_reachable show ?thesis by simp
qed

section \<open>Deposits of two accounts\<close>

lemma transact_eq_None:
  "transact call s = (None, s') \<longleftrightarrow> (\<exists>r. call s = Inr r \<and> s' = endTransaction r)"
  by (auto simp: transact_def split: sum.splits)

lemma endTransaction_plain [simp]:
  "stakes (endTransaction s) = stakes s" "totalStaked (endTransaction s) = totalStaked s"
  by (simp_all add: endTransaction_def)

lemma stake_transaction_plain:
  assumes "transact (stake reg sender amount) s = (None, s')"
  shows "stakes s' = (stakes s)(sender := stakes s sender + ucast amount)"
    and "totalStaked s' = totalStaked s + ucast amount"
    and "unat (stakes s' sender) = unat (stakes s sender) + unat amount"
    and "unat (totalStaked s') = unat (totalStaked s) + unat amount"
proof -
  from assms obtain r where r: "stake reg sender amount s = Inr r" and s': "s' = endTransaction r"
    by (auto simp: transact_eq_None)
  note p = stake_plain [OF r]
  show "stakes s' = (stakes s)(sender := stakes s sender + ucast amount)"
    and "totalStaked s' = totalStaked s + ucast amount"
    and "unat (stakes s' sender) = unat (stakes s sender) + unat amount"
    and "unat (totalStaked s') = unat (totalStaked s) + unat amount"
    using p(2,3,4,5) by (simp_all add: s')
qed

text \<open>
  C8. Two distinct accounts X and Y each deposit once, each deposit a transaction of its
  own. Whichever transaction runs first, the plaintext state at the end is the same: the
  same stakes for every account and the same total. The total has grown by the sum of the
  two amounts, the stake of each of the two accounts by its own amount only, the first
  transaction of either order leaves the other account's entry alone, and no third account
  changes. From the empty ledger the total is the sum of the two amounts and each stake is
  the account's own contribution.
\<close>

theorem deposits_of_two_accounts_commute:
  assumes "X \<noteq> Y"
    and "transact (stake reg1 X a) s = (None, s1)"
    and "transact (stake reg2 Y b) s1 = (None, s2)"
    and "transact (stake reg3 Y b) s = (None, t1)"
    and "transact (stake reg4 X a) t1 = (None, t2)"
  shows "stakes s2 = stakes t2 \<and> totalStaked s2 = totalStaked t2 \<and>
    unat (totalStaked s2) = unat (totalStaked s) + unat a + unat b \<and>
    unat (stakes s2 X) = unat (stakes s X) + unat a \<and>
    unat (stakes s2 Y) = unat (stakes s Y) + unat b \<and>
    stakes s1 Y = stakes s Y \<and> stakes t1 X = stakes s X \<and>
    (\<forall>Z. Z \<noteq> X \<longrightarrow> Z \<noteq> Y \<longrightarrow> stakes s2 Z = stakes s Z)"
proof -
  note p1 = stake_transaction_plain [OF assms(2)] and p2 = stake_transaction_plain [OF assms(3)]
    and q1 = stake_transaction_plain [OF assms(4)] and q2 = stake_transaction_plain [OF assms(5)]
  have s2: "stakes s2 = (stakes s)(X := stakes s X + ucast a, Y := stakes s Y + ucast b)"
    using p1(1) p2(1) assms(1) by simp
  have t2: "stakes t2 = (stakes s)(Y := stakes s Y + ucast b, X := stakes s X + ucast a)"
    using q1(1) q2(1) assms(1) by simp
  have eq: "stakes s2 = stakes t2"
    unfolding s2 t2 using assms(1) by (simp add: fun_upd_twist)
  have tot: "totalStaked s2 = totalStaked t2"
    using p1(2) p2(2) q1(2) q2(2) by simp
  have "unat (stakes s2 X) = unat (stakes s1 X)"
    using p2(1) assms(1) by simp
  then have X: "unat (stakes s2 X) = unat (stakes s X) + unat a"
    using p1(3) by simp
  have "stakes s1 Y = stakes s Y"
    using p1(1) assms(1) by simp
  then have Y: "unat (stakes s2 Y) = unat (stakes s Y) + unat b" "stakes s1 Y = stakes s Y"
    using p2(3) by simp_all
  have tX: "stakes t1 X = stakes s X"
    using q1(1) assms(1) by simp
  have others: "\<forall>Z. Z \<noteq> X \<longrightarrow> Z \<noteq> Y \<longrightarrow> stakes s2 Z = stakes s Z"
    by (simp add: s2)
  from eq tot X Y tX others p1(4) p2(4) show ?thesis
    by simp
qed

theorem deposits_of_two_accounts_commute_witness:
  "alice \<noteq> bob \<and>
   transact (stake accepting alice 1000000) deployFixture = (None, aliceFirst) \<and>
   transact (stake accepting bob 1000000) aliceFirst = (None, aliceThenBob) \<and>
   transact (stake accepting bob 1000000) deployFixture = (None, bobFirst) \<and>
   transact (stake accepting alice 1000000) bobFirst = (None, bobThenAlice) \<and>
   stakes aliceThenBob = stakes bobThenAlice \<and>
   totalStaked aliceThenBob = totalStaked bobThenAlice \<and>
   unat (totalStaked aliceThenBob) = 2000000 \<and>
   unat (totalStaked bobThenAlice) = 2000000 \<and>
   unat (stakes aliceThenBob alice) = 1000000 \<and>
   unat (stakes aliceThenBob bob) = 1000000 \<and>
   unat (stakes bobThenAlice alice) = 1000000 \<and>
   unat (stakes bobThenAlice bob) = 1000000"
proof -
  have ne: "alice \<noteq> bob" by (simp add: alice_def bob_def)
  have r1: "transact (stake accepting alice 1000000) deployFixture = (None, aliceFirst)"
    by (simp add: aliceFirst_def eval_defs)
  have r2: "transact (stake accepting bob 1000000) aliceFirst = (None, aliceThenBob)"
    by (simp add: aliceThenBob_def aliceFirst_def eval_defs)
  have r3: "transact (stake accepting bob 1000000) deployFixture = (None, bobFirst)"
    by (simp add: bobFirst_def eval_defs)
  have r4: "transact (stake accepting alice 1000000) bobFirst = (None, bobThenAlice)"
    by (simp add: bobThenAlice_def bobFirst_def eval_defs)
  have init: "unat (totalStaked deployFixture) = 0" "unat (stakes deployFixture alice) = 0"
    "unat (stakes deployFixture bob) = 0"
    by (simp_all add: deployFixture_def constructor_def)
  note c = deposits_of_two_accounts_commute [OF ne r1 r2 r3 r4]
  from c have e: "stakes aliceThenBob = stakes bobThenAlice" by blast
  from c have tt: "totalStaked aliceThenBob = totalStaked bobThenAlice" by blast
  from c have "unat (totalStaked aliceThenBob) =
      unat (totalStaked deployFixture) + unat (1000000 :: uint64) + unat (1000000 :: uint64)"
    by blast
  with init have total: "unat (totalStaked aliceThenBob) = 2000000" by simp
  from c have "unat (stakes aliceThenBob alice) =
      unat (stakes deployFixture alice) + unat (1000000 :: uint64)"
    by blast
  with init have A: "unat (stakes aliceThenBob alice) = 1000000" by simp
  from c have "unat (stakes aliceThenBob bob) =
      unat (stakes deployFixture bob) + unat (1000000 :: uint64)"
    by blast
  with init have B: "unat (stakes aliceThenBob bob) = 1000000" by simp
  from total tt have total': "unat (totalStaked bobThenAlice) = 2000000" by simp
  from A e have A': "unat (stakes bobThenAlice alice) = 1000000" by simp
  from B e have B': "unat (stakes bobThenAlice bob) = 1000000" by simp
  show ?thesis
    by (intro conjI ne r1 r2 r3 r4 e tt total total' A B A' B')
qed

section \<open>One encryption per call\<close>

lemma encryptions_append [simp]: "encryptions (xs @ ys) = encryptions xs @ encryptions ys"
  by (induction xs rule: encryptions.induct) simp_all

lemma encryptions_accumulate_ops [simp]:
  "encryptions (accumulate_ops c ps cur delta add n) = []"
  by (induction ps) (simp_all add: accumulate_ops_def combine_op_def)

lemma execute_eq_Inr:
  assumes "execute reg sender c s = Inr s'"
  shows "\<exists>n1 n2 f.
    accumulate (is_deposit c) (thisAddress s) (token s) sender (amount_of c)
      (stakesCipher s sender) (totalStakedCipher s) (fhe s) = Inr (n1, n2, f) \<and>
    stakesCipher s' = (stakesCipher s)(sender := n1) \<and> totalStakedCipher s' = n2 \<and>
    fhe s' = f \<and>
    calls s' = calls s @ [transfer_request c sender (thisAddress s) (fresh (fhe s))] \<and>
    events s' = events s @ [emitted c sender] \<and>
    thisAddress s' = thisAddress s \<and> token s' = token s"
  using assms
  by (cases c)
     (auto simp: stake_eq_Inr withdraw_eq_Inr is_deposit_def amount_of_def transfer_request_def
        emitted_def)

lemma accumulate_amount:
  assumes "accumulate add self tok user amount cur tot f = Inr (n1, n2, f')"
  shows "ciphertexts f' (fresh f) = Some amount"
proof -
  let ?f0 = "issue self amount (TrivialEncrypt self amount (fresh f)) f"
  from assms obtain f1 f2 where
    u1: "update self [self, user] cur (fresh f) add ?f0 = Inr (n1, f1)" and
    u2: "update self [self] tot (fresh f) add f1 = Inr (n2, f2)" and
    f': "f' = grant self (fresh f) tok (grant self (fresh f) self f2)"
    by (auto simp: accumulate_eq_Inr)
  have "extends ?f0 f2"
    by (rule extends_trans [OF update_extends [OF u1] update_extends [OF u2]])
  then have "ciphertexts f2 (fresh f) = ciphertexts ?f0 (fresh f)"
    by (simp add: extends_def)
  then show ?thesis by (simp add: f')
qed

lemma execute_succeeds:
  assumes "reachable t" and "amount_of c \<noteq> 0"
    and "is_deposit c \<Longrightarrow> unat (stakes t sender) + unat (amount_of c) < 2 ^ 256 \<and>
          unat (totalStaked t) + unat (amount_of c) < 2 ^ 256"
    and "\<not> is_deposit c \<Longrightarrow> unat (amount_of c) \<le> unat (stakes t sender)"
    and "reg (transfer_request c sender (thisAddress t) (fresh (fhe t)))"
  shows "\<exists>t'. execute reg sender c t = Inr t'"
proof (cases c)
  case (Stake amount)
  with assms(2,3,5) stake_succeeds [of t amount sender reg] reachable_consistent [OF assms(1)]
  show ?thesis
    by (simp add: amount_of_def is_deposit_def transfer_request_def)
next
  case (Withdraw amount)
  with assms(2,4,5) withdraw_succeeds [of t amount sender reg]
    reachable_consistent [OF assms(1)] reachable_conserved [OF assms(1)]
  show ?thesis
    by (simp add: amount_of_def is_deposit_def transfer_request_def)
qed

text \<open>
  C7. A successful \<^verbatim>\<open>stake\<close> or \<^verbatim>\<open>withdraw\<close> adds exactly one encryption to the trace of
  the engine: that of the amount, giving the handle \<open>h\<close>. The engine operations of the call
  are this encryption, the update of the account's accumulator with \<open>h\<close> as the delta, the
  update of the total with the same \<open>h\<close>, and the grants on \<open>h\<close>; on a first write the new
  account handle, or the new total handle, is \<open>h\<close> itself; and the request sent to the
  token carries \<open>h\<close>. In a state of a deployed vault, a call whose amount passes the checks
  of the contract and whose transfer the token accepts does succeed.
\<close>

theorem amount_encrypted_once:
  "(execute reg sender c s = Inr s' \<longrightarrow>
      encryptions (trace (fhe s')) =
        encryptions (trace (fhe s)) @ [(amount_of c, fresh (fhe s))] \<and>
      decrypt (fhe s') (fresh (fhe s)) = Some (amount_of c) \<and>
      trace (fhe s') = trace (fhe s) @
        [TrivialEncrypt (thisAddress s) (amount_of c) (fresh (fhe s))] @
        accumulate_ops (thisAddress s) [thisAddress s, sender] (stakesCipher s sender)
          (fresh (fhe s)) (is_deposit c) (stakesCipher s' sender) @
        accumulate_ops (thisAddress s) [thisAddress s] (totalStakedCipher s)
          (fresh (fhe s)) (is_deposit c) (totalStakedCipher s') @
        [Allow (thisAddress s) (fresh (fhe s)) (thisAddress s),
         Allow (thisAddress s) (fresh (fhe s)) (token s)] \<and>
      (stakesCipher s sender = 0 \<longrightarrow> stakesCipher s' sender = fresh (fhe s)) \<and>
      (totalStakedCipher s = 0 \<longrightarrow> totalStakedCipher s' = fresh (fhe s)) \<and>
      calls s' = calls s @ [transfer_request c sender (thisAddress s) (fresh (fhe s))]) \<and>
   (reachable s \<longrightarrow> amount_of c \<noteq> 0 \<longrightarrow>
      (is_deposit c \<longrightarrow> unat (stakes s sender) + unat (amount_of c) < 2 ^ 256 \<and>
          unat (totalStaked s) + unat (amount_of c) < 2 ^ 256) \<longrightarrow>
      (\<not> is_deposit c \<longrightarrow> unat (amount_of c) \<le> unat (stakes s sender)) \<longrightarrow>
      reg (transfer_request c sender (thisAddress s) (fresh (fhe s))) \<longrightarrow>
      (\<exists>r. execute reg sender c s = Inr r))"
proof (intro conjI impI)
  assume run: "execute reg sender c s = Inr s'"
  from execute_eq_Inr [OF run] obtain n1 n2 f where
    acc: "accumulate (is_deposit c) (thisAddress s) (token s) sender (amount_of c)
      (stakesCipher s sender) (totalStakedCipher s) (fhe s) = Inr (n1, n2, f)" and
    s': "stakesCipher s' = (stakesCipher s)(sender := n1)" "totalStakedCipher s' = n2"
      "fhe s' = f"
      "calls s' = calls s @ [transfer_request c sender (thisAddress s) (fresh (fhe s))]"
    by blast
  note ex = accumulate_explicit [OF acc]
  show tr: "trace (fhe s') = trace (fhe s) @
      [TrivialEncrypt (thisAddress s) (amount_of c) (fresh (fhe s))] @
      accumulate_ops (thisAddress s) [thisAddress s, sender] (stakesCipher s sender)
        (fresh (fhe s)) (is_deposit c) (stakesCipher s' sender) @
      accumulate_ops (thisAddress s) [thisAddress s] (totalStakedCipher s)
        (fresh (fhe s)) (is_deposit c) (totalStakedCipher s') @
      [Allow (thisAddress s) (fresh (fhe s)) (thisAddress s),
       Allow (thisAddress s) (fresh (fhe s)) (token s)]"
    using ex(5) by (simp add: s')
  show "encryptions (trace (fhe s')) =
      encryptions (trace (fhe s)) @ [(amount_of c, fresh (fhe s))]"
    unfolding tr by simp
  show "decrypt (fhe s') (fresh (fhe s)) = Some (amount_of c)"
    using accumulate_amount [OF acc] by (simp add: decrypt_def s')
  show "stakesCipher s' sender = fresh (fhe s)" if "stakesCipher s sender = 0"
    using ex(1) that by (simp add: s')
  show "totalStakedCipher s' = fresh (fhe s)" if "totalStakedCipher s = 0"
    using ex(2) that by (simp add: s')
  show "calls s' = calls s @ [transfer_request c sender (thisAddress s) (fresh (fhe s))]"
    by (rule s'(4))
next
  assume "reachable s" "amount_of c \<noteq> 0"
    "is_deposit c \<longrightarrow> unat (stakes s sender) + unat (amount_of c) < 2 ^ 256 \<and>
          unat (totalStaked s) + unat (amount_of c) < 2 ^ 256"
    "\<not> is_deposit c \<longrightarrow> unat (amount_of c) \<le> unat (stakes s sender)"
    "reg (transfer_request c sender (thisAddress s) (fresh (fhe s)))"
  then show "\<exists>r. execute reg sender c s = Inr r"
    using execute_succeeds [of s c sender reg] by blast
qed

theorem amount_encrypted_once_witness:
  "reachable (endTransaction scenarioA) \<and>
   (\<exists>r. execute accepting bob (Stake 1000000) (endTransaction scenarioA) = Inr r) \<and>
   execute accepting bob (Stake 1000000) (endTransaction scenarioA) = Inr bobDeposit \<and>
   encryptions (trace (fhe bobDeposit)) = [(5000000, 1), (1000000, 2)] \<and>
   decrypt (fhe bobDeposit) 2 = Some 1000000 \<and>
   trace (fhe bobDeposit) = trace (fhe (endTransaction scenarioA)) @
     [TrivialEncrypt 4096 1000000 2, Allow 4096 2 4096, Allow 4096 2 bob,
      FheAdd 4096 1 2 3, Allow 4096 3 4096, Allow 4096 2 4096, Allow 4096 2 8192] \<and>
   calls bobDeposit =
     [ConfidentialTransferFrom alice 4096 1, ConfidentialTransferFrom bob 4096 2] \<and>
   reachable (endTransaction bobDeposit) \<and>
   (\<exists>r. execute accepting bob (Withdraw 400000) (endTransaction bobDeposit) = Inr r) \<and>
   execute accepting bob (Withdraw 400000) (endTransaction bobDeposit) = Inr bobWithdraw \<and>
   encryptions (trace (fhe bobWithdraw)) = [(5000000, 1), (1000000, 2), (400000, 4)] \<and>
   decrypt (fhe bobWithdraw) 4 = Some 400000 \<and>
   trace (fhe bobWithdraw) = trace (fhe (endTransaction bobDeposit)) @
     [TrivialEncrypt 4096 400000 4, FheSub 4096 2 4 5, Allow 4096 5 4096, Allow 4096 5 bob,
      FheSub 4096 3 4 6, Allow 4096 6 4096, Allow 4096 4 4096, Allow 4096 4 8192] \<and>
   calls bobWithdraw =
     [ConfidentialTransferFrom alice 4096 1, ConfidentialTransferFrom bob 4096 2,
      ConfidentialTransfer bob 4]"
proof -
  let ?s = "endTransaction scenarioA" and ?t = "endTransaction bobDeposit"
  note c2 = conjunct2
  have reach: "reachable ?s" "reachable ?t"
    by (rule reachable.committed [OF scenarioA_reachable], rule bobDeposit_reachable)
  have acc: "accepting x" for x by (simp add: accepting_def)
  have r1: "execute accepting bob (Stake 1000000) ?s = Inr bobDeposit"
    by (simp add: bobDeposit_run)
  have r2: "execute accepting bob (Withdraw 400000) ?t = Inr bobWithdraw"
    by (simp add: bobWithdraw_run)
  have pre1: "fresh (fhe ?s) = 2" "encryptions (trace (fhe ?s)) = [(5000000, 1)]"
    "calls ?s = [ConfidentialTransferFrom alice 4096 1]"
    "thisAddress ?s = 4096" "token ?s = 8192"
    "stakesCipher ?s bob = 0" "totalStakedCipher ?s = 1"
    "unat (stakes ?s bob) = 0" "unat (totalStaked ?s) = 5000000"
    by (simp_all add: scenarioA_def eval_defs)
  have post1: "stakesCipher bobDeposit bob = 2" "totalStakedCipher bobDeposit = 3"
    by (simp_all add: bobDeposit_def scenarioA_def eval_defs)
  have pre2: "fresh (fhe ?t) = 4"
    "calls ?t = [ConfidentialTransferFrom alice 4096 1, ConfidentialTransferFrom bob 4096 2]"
    "thisAddress ?t = 4096" "token ?t = 8192"
    "stakesCipher ?t bob = 2" "totalStakedCipher ?t = 3"
    "unat (stakes ?t bob) = 1000000"
    by (simp_all add: bobDeposit_def scenarioA_def eval_defs)
  have post2: "stakesCipher bobWithdraw bob = 5" "totalStakedCipher bobWithdraw = 6"
    by (simp_all add: bobWithdraw_def bobDeposit_def scenarioA_def eval_defs)
  note t1 = amount_encrypted_once [of accepting bob "Stake 1000000" ?s bobDeposit]
  note t2 = amount_encrypted_once [of accepting bob "Withdraw 400000" ?t bobWithdraw]
  from t1 [THEN c2] reach(1) acc pre1(8,9)
  have e1: "\<exists>r. execute accepting bob (Stake 1000000) ?s = Inr r"
    by (simp add: amount_of_def is_deposit_def)
  from t2 [THEN c2] reach(2) acc pre2(7)
  have e2: "\<exists>r. execute accepting bob (Withdraw 400000) ?t = Inr r"
    by (simp add: amount_of_def is_deposit_def)
  note d1 = t1 [THEN conjunct1, THEN mp, OF r1]
  note d2 = t2 [THEN conjunct1, THEN mp, OF r2]
  from d1 pre1 post1 have a1:
    "encryptions (trace (fhe bobDeposit)) = [(5000000, 1), (1000000, 2)]"
    "decrypt (fhe bobDeposit) 2 = Some 1000000"
    "trace (fhe bobDeposit) = trace (fhe ?s) @
     [TrivialEncrypt 4096 1000000 2, Allow 4096 2 4096, Allow 4096 2 bob,
      FheAdd 4096 1 2 3, Allow 4096 3 4096, Allow 4096 2 4096, Allow 4096 2 8192]"
    "calls bobDeposit =
     [ConfidentialTransferFrom alice 4096 1, ConfidentialTransferFrom bob 4096 2]"
    by (simp_all add: amount_of_def is_deposit_def transfer_request_def accumulate_ops_def
        combine_op_def)
  from d2 a1(1) pre2 post2 have a2:
    "encryptions (trace (fhe bobWithdraw)) = [(5000000, 1), (1000000, 2), (400000, 4)]"
    "decrypt (fhe bobWithdraw) 4 = Some 400000"
    "trace (fhe bobWithdraw) = trace (fhe ?t) @
     [TrivialEncrypt 4096 400000 4, FheSub 4096 2 4 5, Allow 4096 5 4096, Allow 4096 5 bob,
      FheSub 4096 3 4 6, Allow 4096 6 4096, Allow 4096 4 4096, Allow 4096 4 8192]"
    "calls bobWithdraw =
     [ConfidentialTransferFrom alice 4096 1, ConfidentialTransferFrom bob 4096 2,
      ConfidentialTransfer bob 4]"
    by (simp_all add: amount_of_def is_deposit_def transfer_request_def accumulate_ops_def
        combine_op_def endTransaction_def)
  show ?thesis
    by (intro conjI reach e1 r1 a1 e2 r2 a2)
qed

section \<open>The accumulator rule in the code\<close>

lemma update_semantics:
  assumes "update c ps cur delta add f = Inr (n, f')"
  shows "(cur = 0 \<longrightarrow> n = delta \<and> trace f' = trace f @ map (Allow c n) ps) \<and>
    (cur \<noteq> 0 \<longrightarrow> (\<exists>x y. decrypt f cur = Some x \<and> decrypt f delta = Some y \<and>
        decrypt f' n = Some (if add then x + y else x - y))) \<and>
    (\<forall>p\<in>set ps. (n, p) \<in> persistent f')"
  using update_handle [OF assms] update_trace [OF assms] update_combined [OF assms]
    update_persistent [OF assms]
  by (auto simp: accumulate_ops_def decrypt_def combine_def)

lemma execute_updates:
  assumes "execute reg sender c t = Inr t'"
  shows "\<exists>f1 f2.
      update (thisAddress t) [thisAddress t, sender] (stakesCipher t sender) (fresh (fhe t))
        (is_deposit c) (snd (FHE_asEuint64 (thisAddress t) (amount_of c) (fhe t))) =
        Inr (stakesCipher t' sender, f1) \<and>
      update (thisAddress t) [thisAddress t] (totalStakedCipher t) (fresh (fhe t))
        (is_deposit c) f1 = Inr (totalStakedCipher t', f2)"
proof -
  from execute_eq_Inr [OF assms] obtain n1 n2 f where
    acc: "accumulate (is_deposit c) (thisAddress t) (token t) sender (amount_of c)
      (stakesCipher t sender) (totalStakedCipher t) (fhe t) = Inr (n1, n2, f)" and
    t': "stakesCipher t' = (stakesCipher t)(sender := n1)" "totalStakedCipher t' = n2"
    by blast
  from acc t' show ?thesis
    by (auto simp: accumulate_eq_Inr FHE_asEuint64_def)
qed

lemma execute_grants:
  assumes "execute reg sender c t = Inr t'"
  shows "(stakesCipher t' sender, thisAddress t) \<in> persistent (fhe t')"
    and "(stakesCipher t' sender, sender) \<in> persistent (fhe t')"
    and "(totalStakedCipher t', thisAddress t) \<in> persistent (fhe t')"
proof -
  from execute_eq_Inr [OF assms] obtain n1 n2 f where
    acc: "accumulate (is_deposit c) (thisAddress t) (token t) sender (amount_of c)
      (stakesCipher t sender) (totalStakedCipher t) (fhe t) = Inr (n1, n2, f)" and
    t': "stakesCipher t' = (stakesCipher t)(sender := n1)" "totalStakedCipher t' = n2"
      "fhe t' = f"
    by blast
  note ex = accumulate_explicit(4) [OF acc]
  show "(stakesCipher t' sender, thisAddress t) \<in> persistent (fhe t')"
    and "(stakesCipher t' sender, sender) \<in> persistent (fhe t')"
    and "(totalStakedCipher t', thisAddress t) \<in> persistent (fhe t')"
    by (simp_all add: t' ex)
qed

lemma update_grants:
  assumes "update c ps cur delta add f = Inr (n, f')"
  shows "trace f' = trace f @ accumulate_ops c ps cur delta add n"
    and "persistent f' = Pair n ` set ps \<union> persistent f"
  by (rule update_trace [OF assms], rule update_persistent [OF assms])

lemma updateEncryptedStake_grants:
  assumes "updateEncryptedStake user delta isAddition s = Inr s'"
  shows "persistent (fhe s') =
    insert (stakesCipher s' user, thisAddress s)
      (insert (stakesCipher s' user, user) (persistent (fhe s)))"
proof -
  from assms obtain h f where
    u: "update (thisAddress s) [thisAddress s, user] (stakesCipher s user) delta isAddition
          (fhe s) = Inr (h, f)" and
    s': "s' = s\<lparr>stakesCipher := (stakesCipher s)(user := h), fhe := f\<rparr>"
    by (auto simp: updateEncryptedStake_update and_then_eq_Inr)
  from update_persistent [OF u] show ?thesis
    by (simp add: s')
qed

lemma updateTotalEncryptedStake_grants:
  assumes "updateTotalEncryptedStake delta isAddition s = Inr s'"
  shows "persistent (fhe s') = insert (totalStakedCipher s', thisAddress s) (persistent (fhe s))"
proof -
  from assms obtain h f where
    u: "update (thisAddress s) [thisAddress s] (totalStakedCipher s) delta isAddition
          (fhe s) = Inr (h, f)" and
    s': "s' = s\<lparr>totalStakedCipher := h, fhe := f\<rparr>"
    by (auto simp: updateTotalEncryptedStake_update and_then_eq_Inr)
  from update_persistent [OF u] show ?thesis
    by (simp add: s')
qed

lemma execute_all_grants:
  assumes "execute reg sender c t = Inr t'"
  shows "persistent (fhe t') =
    {(fresh (fhe t), token t), (fresh (fhe t), thisAddress t),
     (totalStakedCipher t', thisAddress t),
     (stakesCipher t' sender, thisAddress t), (stakesCipher t' sender, sender)} \<union>
    persistent (fhe t)"
proof -
  from execute_eq_Inr [OF assms] obtain n1 n2 f where
    acc: "accumulate (is_deposit c) (thisAddress t) (token t) sender (amount_of c)
      (stakesCipher t sender) (totalStakedCipher t) (fhe t) = Inr (n1, n2, f)" and
    t': "stakesCipher t' = (stakesCipher t)(sender := n1)" "totalStakedCipher t' = n2"
      "fhe t' = f"
    by blast
  from accumulate_explicit(4) [OF acc] show ?thesis
    by (simp add: t')
qed

text \<open>
  C6 (as the code has it). Both private functions are the rule of the specification:
  \<^verbatim>\<open>_updateEncryptedStake\<close> is \<open>update\<close> on the account's handle with the grants going to
  the vault and to the account, \<^verbatim>\<open>_updateTotalEncryptedStake\<close> is \<open>update\<close> on the total
  handle with the vault as the only principal: the grants it adds are the one to the vault
  and no other. The rule takes the delta itself when the current handle is uninitialised,
  performing grants only, and otherwise the handle of the homomorphic sum or difference;
  the engine operations it performs are the combination, if any, and one grant of the new
  handle to each principal of its list, and nothing else is granted. A successful
  \<^verbatim>\<open>stake\<close> applies the rule with addition, a successful \<^verbatim>\<open>withdraw\<close> with subtraction, to
  both accumulators and with the one encrypted amount as the delta; the grants of the
  whole call are those of the two updates and the two on the encrypted amount. In a state
  of a deployed vault, a call whose amount passes the checks of the contract and whose
  transfer the token accepts does succeed.
\<close>

theorem accumulators_follow_update_rule:
  "updateEncryptedStake user delta isAddition s =
     and_then (update (thisAddress s) [thisAddress s, user] (stakesCipher s user) delta
                 isAddition (fhe s))
       (\<lambda>(h, f). Inr (s\<lparr>stakesCipher := (stakesCipher s)(user := h), fhe := f\<rparr>)) \<and>
   updateTotalEncryptedStake delta isAddition s =
     and_then (update (thisAddress s) [thisAddress s] (totalStakedCipher s) delta
                 isAddition (fhe s))
       (\<lambda>(h, f). Inr (s\<lparr>totalStakedCipher := h, fhe := f\<rparr>)) \<and>
   (updateEncryptedStake user delta isAddition s = Inr s' \<longrightarrow>
      persistent (fhe s') =
        insert (stakesCipher s' user, thisAddress s)
          (insert (stakesCipher s' user, user) (persistent (fhe s)))) \<and>
   (updateTotalEncryptedStake delta isAddition s = Inr s'' \<longrightarrow>
      persistent (fhe s'') =
        insert (totalStakedCipher s'', thisAddress s) (persistent (fhe s))) \<and>
   (update ledger principals cur delta isAddition e = Inr (n, e') \<longrightarrow>
      (cur = 0 \<longrightarrow> n = delta \<and> trace e' = trace e @ map (Allow ledger n) principals) \<and>
      (cur \<noteq> 0 \<longrightarrow> (\<exists>x y. decrypt e cur = Some x \<and> decrypt e delta = Some y \<and>
          decrypt e' n = Some (if isAddition then x + y else x - y))) \<and>
      (\<forall>p\<in>set principals. (n, p) \<in> persistent e') \<and>
      trace e' = trace e @ accumulate_ops ledger principals cur delta isAddition n \<and>
      persistent e' = Pair n ` set principals \<union> persistent e) \<and>
   (execute reg sender c t = Inr t' \<longrightarrow>
      (\<exists>f1 f2.
        update (thisAddress t) [thisAddress t, sender] (stakesCipher t sender) (fresh (fhe t))
          (is_deposit c) (snd (FHE_asEuint64 (thisAddress t) (amount_of c) (fhe t))) =
          Inr (stakesCipher t' sender, f1) \<and>
        update (thisAddress t) [thisAddress t] (totalStakedCipher t) (fresh (fhe t))
          (is_deposit c) f1 = Inr (totalStakedCipher t', f2)) \<and>
      (stakesCipher t' sender, thisAddress t) \<in> persistent (fhe t') \<and>
      (stakesCipher t' sender, sender) \<in> persistent (fhe t') \<and>
      (totalStakedCipher t', thisAddress t) \<in> persistent (fhe t') \<and>
      persistent (fhe t') =
        {(fresh (fhe t), token t), (fresh (fhe t), thisAddress t),
         (totalStakedCipher t', thisAddress t),
         (stakesCipher t' sender, thisAddress t), (stakesCipher t' sender, sender)} \<union>
        persistent (fhe t)) \<and>
   (reachable t \<longrightarrow> amount_of c \<noteq> 0 \<longrightarrow>
      (is_deposit c \<longrightarrow> unat (stakes t sender) + unat (amount_of c) < 2 ^ 256 \<and>
          unat (totalStaked t) + unat (amount_of c) < 2 ^ 256) \<longrightarrow>
      (\<not> is_deposit c \<longrightarrow> unat (amount_of c) \<le> unat (stakes t sender)) \<longrightarrow>
      reg (transfer_request c sender (thisAddress t) (fresh (fhe t))) \<longrightarrow>
      (\<exists>r. execute reg sender c t = Inr r))"
proof (intro conjI impI)
  show "updateEncryptedStake user delta isAddition s =
     and_then (update (thisAddress s) [thisAddress s, user] (stakesCipher s user) delta
                 isAddition (fhe s))
       (\<lambda>(h, f). Inr (s\<lparr>stakesCipher := (stakesCipher s)(user := h), fhe := f\<rparr>))"
    by (rule updateEncryptedStake_update)
  show "updateTotalEncryptedStake delta isAddition s =
     and_then (update (thisAddress s) [thisAddress s] (totalStakedCipher s) delta
                 isAddition (fhe s))
       (\<lambda>(h, f). Inr (s\<lparr>totalStakedCipher := h, fhe := f\<rparr>))"
    by (rule updateTotalEncryptedStake_update)
next
  assume "updateEncryptedStake user delta isAddition s = Inr s'"
  then show "persistent (fhe s') =
        insert (stakesCipher s' user, thisAddress s)
          (insert (stakesCipher s' user, user) (persistent (fhe s)))"
    by (rule updateEncryptedStake_grants)
next
  assume "updateTotalEncryptedStake delta isAddition s = Inr s''"
  then show "persistent (fhe s'') =
        insert (totalStakedCipher s'', thisAddress s) (persistent (fhe s))"
    by (rule updateTotalEncryptedStake_grants)
next
  assume u: "update ledger principals cur delta isAddition e = Inr (n, e')"
  note sem = update_semantics [OF u]
  from sem show "cur = 0 \<Longrightarrow> n = delta" by blast
  from sem show "cur = 0 \<Longrightarrow> trace e' = trace e @ map (Allow ledger n) principals" by blast
  from sem show "cur \<noteq> 0 \<Longrightarrow> \<exists>x y. decrypt e cur = Some x \<and> decrypt e delta = Some y \<and>
          decrypt e' n = Some (if isAddition then x + y else x - y)" by blast
  from sem show "\<forall>p\<in>set principals. (n, p) \<in> persistent e'" by blast
  from update_grants [OF u]
  show "trace e' = trace e @ accumulate_ops ledger principals cur delta isAddition n"
    "persistent e' = Pair n ` set principals \<union> persistent e" .
next
  assume r: "execute reg sender c t = Inr t'"
  from execute_updates [OF r] show "\<exists>f1 f2.
        update (thisAddress t) [thisAddress t, sender] (stakesCipher t sender) (fresh (fhe t))
          (is_deposit c) (snd (FHE_asEuint64 (thisAddress t) (amount_of c) (fhe t))) =
          Inr (stakesCipher t' sender, f1) \<and>
        update (thisAddress t) [thisAddress t] (totalStakedCipher t) (fresh (fhe t))
          (is_deposit c) f1 = Inr (totalStakedCipher t', f2)" .
  from execute_grants [OF r]
  show "(stakesCipher t' sender, thisAddress t) \<in> persistent (fhe t')"
    "(stakesCipher t' sender, sender) \<in> persistent (fhe t')"
    "(totalStakedCipher t', thisAddress t) \<in> persistent (fhe t')" .
  from execute_all_grants [OF r]
  show "persistent (fhe t') =
        {(fresh (fhe t), token t), (fresh (fhe t), thisAddress t),
         (totalStakedCipher t', thisAddress t),
         (stakesCipher t' sender, thisAddress t), (stakesCipher t' sender, sender)} \<union>
        persistent (fhe t)" .
next
  assume "reachable t" "amount_of c \<noteq> 0"
    "is_deposit c \<longrightarrow> unat (stakes t sender) + unat (amount_of c) < 2 ^ 256 \<and>
          unat (totalStaked t) + unat (amount_of c) < 2 ^ 256"
    "\<not> is_deposit c \<longrightarrow> unat (amount_of c) \<le> unat (stakes t sender)"
    "reg (transfer_request c sender (thisAddress t) (fresh (fhe t)))"
  then show "\<exists>r. execute reg sender c t = Inr r"
    using execute_succeeds [of t c sender reg] by blast
qed

theorem accumulators_follow_update_rule_witness:
  "reachable (endTransaction scenarioA) \<and>
   (\<exists>r. execute accepting bob (Stake 1000000) (endTransaction scenarioA) = Inr r) \<and>
   execute accepting bob (Stake 1000000) (endTransaction scenarioA) = Inr bobDeposit \<and>
   (\<exists>f1 f2.
      update 4096 [4096, bob] 0 2 True
        (snd (FHE_asEuint64 4096 1000000 (fhe (endTransaction scenarioA)))) = Inr (2, f1) \<and>
      update 4096 [4096] 1 2 True f1 = Inr (3, f2)) \<and>
   persistent (fhe bobDeposit) =
     {(2, 8192), (2, 4096), (3, 4096), (2, 4096), (2, bob)} \<union>
     persistent (fhe (endTransaction scenarioA)) \<and>
   reachable (endTransaction bobDeposit) \<and>
   (\<exists>r. execute accepting bob (Withdraw 400000) (endTransaction bobDeposit) = Inr r) \<and>
   execute accepting bob (Withdraw 400000) (endTransaction bobDeposit) = Inr bobWithdraw \<and>
   (\<exists>f1 f2.
      update 4096 [4096, bob] 2 4 False
        (snd (FHE_asEuint64 4096 400000 (fhe (endTransaction bobDeposit)))) = Inr (5, f1) \<and>
      update 4096 [4096] 3 4 False f1 = Inr (6, f2)) \<and>
   persistent (fhe bobWithdraw) =
     {(4, 8192), (4, 4096), (6, 4096), (5, 4096), (5, bob)} \<union>
     persistent (fhe (endTransaction bobDeposit)) \<and>
   updateEncryptedStake alice 1 True scenarioA =
     Inr (projr (updateEncryptedStake alice 1 True scenarioA)) \<and>
   persistent (fhe (projr (updateEncryptedStake alice 1 True scenarioA))) =
     insert (2, 4096) (insert (2, alice) (persistent (fhe scenarioA))) \<and>
   updateTotalEncryptedStake 1 False scenarioA =
     Inr (projr (updateTotalEncryptedStake 1 False scenarioA)) \<and>
   persistent (fhe (projr (updateTotalEncryptedStake 1 False scenarioA))) =
     insert (2, 4096) (persistent (fhe scenarioA)) \<and>
   update 4096 [4096, alice] 0 1 True (fhe scenarioA) =
     Inr (1, snd (projr (update 4096 [4096, alice] 0 1 True (fhe scenarioA)))) \<and>
   trace (snd (projr (update 4096 [4096, alice] 0 1 True (fhe scenarioA)))) =
     trace (fhe scenarioA) @ [Allow 4096 1 4096, Allow 4096 1 alice] \<and>
   update 4096 [4096] 1 1 False (fhe scenarioA) =
     Inr (2, snd (projr (update 4096 [4096] 1 1 False (fhe scenarioA)))) \<and>
   decrypt (fhe scenarioA) 1 = Some 5000000 \<and>
   decrypt (snd (projr (update 4096 [4096] 1 1 False (fhe scenarioA)))) 2 = Some 0 \<and>
   persistent (snd (projr (update 4096 [4096] 1 1 False (fhe scenarioA)))) =
     insert (2, 4096) (persistent (fhe scenarioA))"
proof -
  let ?s = "endTransaction scenarioA" and ?t = "endTransaction bobDeposit"
  let ?a = "projr (updateEncryptedStake alice 1 True scenarioA)"
  let ?b = "projr (updateTotalEncryptedStake 1 False scenarioA)"
  let ?u1 = "snd (projr (update 4096 [4096, alice] 0 1 True (fhe scenarioA)))"
  let ?u2 = "snd (projr (update 4096 [4096] 1 1 False (fhe scenarioA)))"
  note c2 = conjunct2
  have reach: "reachable ?s" "reachable ?t"
    by (rule reachable.committed [OF scenarioA_reachable], rule bobDeposit_reachable)
  have acc: "accepting x" for x by (simp add: accepting_def)
  have r1: "execute accepting bob (Stake 1000000) ?s = Inr bobDeposit"
    by (simp add: bobDeposit_run)
  have r2: "execute accepting bob (Withdraw 400000) ?t = Inr bobWithdraw"
    by (simp add: bobWithdraw_run)
  have pre1: "thisAddress ?s = 4096" "token ?s = 8192" "stakesCipher ?s bob = 0"
    "totalStakedCipher ?s = 1" "fresh (fhe ?s) = 2"
    "unat (stakes ?s bob) = 0" "unat (totalStaked ?s) = 5000000"
    by (simp_all add: scenarioA_def eval_defs)
  have post1: "stakesCipher bobDeposit bob = 2" "totalStakedCipher bobDeposit = 3"
    by (simp_all add: bobDeposit_def scenarioA_def eval_defs)
  have pre2: "thisAddress ?t = 4096" "token ?t = 8192" "stakesCipher ?t bob = 2"
    "totalStakedCipher ?t = 3" "fresh (fhe ?t) = 4" "unat (stakes ?t bob) = 1000000"
    by (simp_all add: bobDeposit_def scenarioA_def eval_defs)
  have post2: "stakesCipher bobWithdraw bob = 5" "totalStakedCipher bobWithdraw = 6"
    by (simp_all add: bobWithdraw_def bobDeposit_def scenarioA_def eval_defs)
  have p1: "updateEncryptedStake alice 1 True scenarioA = Inr ?a"
    by (simp add: and_then_def scenarioA_def eval_defs)
  have p2: "updateTotalEncryptedStake 1 False scenarioA = Inr ?b"
    by (simp add: and_then_def scenarioA_def eval_defs)
  have pa: "thisAddress scenarioA = 4096" "stakesCipher ?a alice = 2" "totalStakedCipher ?b = 2"
    by (simp_all add: and_then_def scenarioA_def eval_defs)
  have u1: "update 4096 [4096, alice] 0 1 True (fhe scenarioA) = Inr (1, ?u1)"
    by (simp add: update_eval scenarioA_def eval_defs)
  have u2: "update 4096 [4096] 1 1 False (fhe scenarioA) = Inr (2, ?u2)"
    by (simp add: update_eval scenarioA_def eval_defs)
  have d: "decrypt (fhe scenarioA) 1 = Some 5000000"
    by (simp add: scenarioA_def eval_defs)
  note t1 = accumulators_follow_update_rule [where user = alice and delta = 1
      and isAddition = True and s = scenarioA and s' = ?a and s'' = ?b and ledger = 4096
      and principals = "[4096, alice]" and cur = 0 and e = "fhe scenarioA" and n = 1
      and e' = ?u1 and reg = accepting and sender = bob and c = "Stake 1000000"
      and t = ?s and t' = bobDeposit]
  note t2 = accumulators_follow_update_rule [where user = alice and delta = 1
      and isAddition = False and s = scenarioA and s' = ?a and s'' = ?b and ledger = 4096
      and principals = "[4096]" and cur = 1 and e = "fhe scenarioA" and n = 2
      and e' = ?u2 and reg = accepting and sender = bob and c = "Withdraw 400000"
      and t = ?t and t' = bobWithdraw]
  note acct = t1 [THEN c2, THEN c2, THEN conjunct1, THEN mp, OF p1]
  note totl = t2 [THEN c2, THEN c2, THEN c2, THEN conjunct1, THEN mp, OF p2]
  note rule1 = t1 [THEN c2, THEN c2, THEN c2, THEN c2, THEN conjunct1, THEN mp, OF u1]
  note rule2 = t2 [THEN c2, THEN c2, THEN c2, THEN c2, THEN conjunct1, THEN mp, OF u2]
  note dep = t1 [THEN c2, THEN c2, THEN c2, THEN c2, THEN c2, THEN conjunct1, THEN mp, OF r1]
  note wdr = t2 [THEN c2, THEN c2, THEN c2, THEN c2, THEN c2, THEN conjunct1, THEN mp, OF r2]
  note ok1 = t1 [THEN c2, THEN c2, THEN c2, THEN c2, THEN c2, THEN c2]
  note ok2 = t2 [THEN c2, THEN c2, THEN c2, THEN c2, THEN c2, THEN c2]
  from ok1 reach(1) acc pre1(6,7)
  have e1: "\<exists>r. execute accepting bob (Stake 1000000) ?s = Inr r"
    by (simp add: amount_of_def is_deposit_def)
  from ok2 reach(2) acc pre2(6)
  have e2: "\<exists>r. execute accepting bob (Withdraw 400000) ?t = Inr r"
    by (simp add: amount_of_def is_deposit_def)
  from dep [THEN conjunct1] have a1: "\<exists>f1 f2.
      update 4096 [4096, bob] 0 2 True
        (snd (FHE_asEuint64 4096 1000000 (fhe ?s))) = Inr (2, f1) \<and>
      update 4096 [4096] 1 2 True f1 = Inr (3, f2)"
    by (simp add: pre1 post1 is_deposit_def amount_of_def)
  from dep [THEN c2, THEN c2, THEN c2, THEN c2]
  have a2: "persistent (fhe bobDeposit) =
     {(2, 8192), (2, 4096), (3, 4096), (2, 4096), (2, bob)} \<union> persistent (fhe ?s)"
    by (simp add: pre1 post1)
  from wdr [THEN conjunct1] have b1: "\<exists>f1 f2.
      update 4096 [4096, bob] 2 4 False
        (snd (FHE_asEuint64 4096 400000 (fhe ?t))) = Inr (5, f1) \<and>
      update 4096 [4096] 3 4 False f1 = Inr (6, f2)"
    by (simp add: pre2 post2 is_deposit_def amount_of_def)
  from wdr [THEN c2, THEN c2, THEN c2, THEN c2]
  have b2: "persistent (fhe bobWithdraw) =
     {(4, 8192), (4, 4096), (6, 4096), (5, 4096), (5, bob)} \<union> persistent (fhe ?t)"
    by (simp add: pre2 post2)
  from acct have g1: "persistent (fhe ?a) =
     insert (2, 4096) (insert (2, alice) (persistent (fhe scenarioA)))"
    by (simp only: pa)
  from totl have g2: "persistent (fhe ?b) = insert (2, 4096) (persistent (fhe scenarioA))"
    by (simp only: pa)
  from rule1 have f1: "trace ?u1 = trace (fhe scenarioA) @ [Allow 4096 1 4096, Allow 4096 1 alice]"
    by simp
  from rule2 d have f2: "decrypt ?u2 2 = Some 0"
    by auto
  from rule2 have f3: "persistent ?u2 = insert (2, 4096) (persistent (fhe scenarioA))"
    by simp
  show ?thesis
    by (intro conjI reach e1 r1 a1 a2 e2 r2 b1 b2 p1 g1 p2 g2 u1 f1 u2 d f2 f3)
qed

text \<open>
  C6 as the claim states it fails for the total: when a second account deposits, and
  when it later withdraws, the new total handle is granted to the vault, and the account
  that made the call has no access to it, while it has access to its own new handle.
\<close>

theorem total_handle_not_granted_to_depositor:
  "execute accepting bob (Stake 1000000) (endTransaction scenarioA) = Inr bobDeposit \<and>
   FHE_isInitialized (totalStakedCipher bobDeposit) \<and>
   (totalStakedCipher bobDeposit, thisAddress bobDeposit) \<in> persistent (fhe bobDeposit) \<and>
   (totalStakedCipher bobDeposit, bob) \<notin> persistent (fhe bobDeposit) \<and>
   \<not> FHE_isAllowed (totalStakedCipher bobDeposit) bob (fhe bobDeposit) \<and>
   FHE_isAllowed (stakesCipher bobDeposit bob) bob (fhe bobDeposit) \<and>
   execute accepting bob (Withdraw 400000) (endTransaction bobDeposit) = Inr bobWithdraw \<and>
   FHE_isInitialized (totalStakedCipher bobWithdraw) \<and>
   (totalStakedCipher bobWithdraw, thisAddress bobWithdraw) \<in> persistent (fhe bobWithdraw) \<and>
   (totalStakedCipher bobWithdraw, bob) \<notin> persistent (fhe bobWithdraw) \<and>
   \<not> FHE_isAllowed (totalStakedCipher bobWithdraw) bob (fhe bobWithdraw) \<and>
   FHE_isAllowed (stakesCipher bobWithdraw bob) bob (fhe bobWithdraw)"
proof -
  have "FHE_isInitialized (totalStakedCipher bobDeposit)"
    "(totalStakedCipher bobDeposit, thisAddress bobDeposit) \<in> persistent (fhe bobDeposit)"
    "(totalStakedCipher bobDeposit, bob) \<notin> persistent (fhe bobDeposit)"
    "\<not> FHE_isAllowed (totalStakedCipher bobDeposit) bob (fhe bobDeposit)"
    "FHE_isAllowed (stakesCipher bobDeposit bob) bob (fhe bobDeposit)"
    by (simp_all add: bobDeposit_def scenarioA_def eval_defs)
  moreover have "FHE_isInitialized (totalStakedCipher bobWithdraw)"
    "(totalStakedCipher bobWithdraw, thisAddress bobWithdraw) \<in> persistent (fhe bobWithdraw)"
    "(totalStakedCipher bobWithdraw, bob) \<notin> persistent (fhe bobWithdraw)"
    "\<not> FHE_isAllowed (totalStakedCipher bobWithdraw) bob (fhe bobWithdraw)"
    "FHE_isAllowed (stakesCipher bobWithdraw bob) bob (fhe bobWithdraw)"
    by (simp_all add: bobWithdraw_def bobDeposit_def scenarioA_def eval_defs)
  ultimately show ?thesis
    using bobDeposit_run bobWithdraw_run by simp
qed

section \<open>Widths: 64-bit mirrors of 256-bit values\<close>

text \<open>
  C1 fails on the code: after two deposits of \<open>2 ^ 63\<close> by one account, both accepted by
  the token, the plaintext stake and the plaintext total are \<open>2 ^ 64\<close>, while the
  initialised encrypted stake and encrypted total both decrypt to \<open>0\<close>.
\<close>

theorem mirror_diverges_after_two_deposits:
  "reachable overflowB \<and>
   stake accepting alice 9223372036854775808 deployFixture = Inr overflowA \<and>
   stake accepting alice 9223372036854775808 (endTransaction overflowA) = Inr overflowB \<and>
   unat (getStake overflowB alice) = 18446744073709551616 \<and>
   FHE_isInitialized (getStakeCipher overflowB alice) \<and>
   decrypt (fhe overflowB) (getStakeCipher overflowB alice) = Some 0 \<and>
   unat (getTotalStaked overflowB) = 18446744073709551616 \<and>
   FHE_isInitialized (getTotalStakedCipher overflowB) \<and>
   decrypt (fhe overflowB) (getTotalStakedCipher overflowB) = Some 0"
proof -
  have "unat (getStake overflowB alice) = 18446744073709551616"
    "unat (getTotalStaked overflowB) = 18446744073709551616"
    "FHE_isInitialized (getStakeCipher overflowB alice)"
    "FHE_isInitialized (getTotalStakedCipher overflowB)"
    "decrypt (fhe overflowB) (getStakeCipher overflowB alice) = Some 0"
    "decrypt (fhe overflowB) (getTotalStakedCipher overflowB) = Some 0"
    by (simp_all add: overflowB_def overflowA_def eval_defs)
  with overflowB_reachable overflowA_run overflowB_run show ?thesis by simp
qed

lemma FHE_add_wraps:
  assumes "FHE_add caller a b e = Inr (h, e')"
  shows "\<exists>x y z. decrypt e a = Some x \<and> decrypt e b = Some y \<and> decrypt e' h = Some z \<and>
    uint z = (uint x + uint y) mod 2 ^ 64"
  using assms
  by (auto simp: FHE_add_def decrypt_def uint_word_ariths split: if_splits option.splits)

lemma FHE_sub_wraps:
  assumes "FHE_sub caller a b e = Inr (h, e')"
  shows "\<exists>x y z. decrypt e a = Some x \<and> decrypt e b = Some y \<and> decrypt e' h = Some z \<and>
    uint z = (uint x - uint y) mod 2 ^ 64"
  using assms
  by (auto simp: FHE_sub_def decrypt_def uint_word_ariths split: if_splits option.splits)

lemma consistent_mirror_mod:
  assumes "mirrors f self h v" and "h \<noteq> 0"
  shows "\<exists>z. decrypt f h = Some z \<and> unat z = unat v mod 2 ^ 64"
  using assms by (auto simp: mirrors_def unat_ucast_down)

text \<open>
  C9. An amount is a 64-bit word, at most \<open>2 ^ 64 - 1\<close>; a plaintext stake and the
  plaintext total are 256-bit words. The engine's sum and difference of two \<^verbatim>\<open>euint64\<close>
  values are taken modulo \<open>2 ^ 64\<close>. A successful \<^verbatim>\<open>stake\<close> adds the amount to the stake
  and to the total as natural numbers, and a successful \<^verbatim>\<open>withdraw\<close> subtracts it, the
  amount being at most both. In every state of a deployed vault an initialised encrypted
  stake, or encrypted total, decrypts to the plaintext value modulo \<open>2 ^ 64\<close>; and there
  is such a state in which a plaintext stake is beyond \<open>2 ^ 64 - 1\<close> and its mirror has
  wrapped to \<open>0\<close>.
\<close>

theorem widths_and_wrap_around:
  "unat (amount_of c) \<le> 2 ^ 64 - 1 \<and>
   unat (getStake s sender) \<le> 2 ^ 256 - 1 \<and> unat (getTotalStaked s) \<le> 2 ^ 256 - 1 \<and>
   (FHE_add caller a b e = Inr (h, e') \<longrightarrow>
      (\<exists>x y z. decrypt e a = Some x \<and> decrypt e b = Some y \<and> decrypt e' h = Some z \<and>
         uint z = (uint x + uint y) mod 2 ^ 64)) \<and>
   (FHE_sub caller a b e = Inr (h, e') \<longrightarrow>
      (\<exists>x y z. decrypt e a = Some x \<and> decrypt e b = Some y \<and> decrypt e' h = Some z \<and>
         uint z = (uint x - uint y) mod 2 ^ 64)) \<and>
   (stake reg sender amount s = Inr s' \<longrightarrow>
      unat (getStake s' sender) = unat (getStake s sender) + unat amount \<and>
      unat (getTotalStaked s') = unat (getTotalStaked s) + unat amount) \<and>
   (withdraw reg sender amount s = Inr s' \<longrightarrow>
      unat amount \<le> unat (getStake s sender) \<and> unat amount \<le> unat (getTotalStaked s) \<and>
      unat (getStake s' sender) = unat (getStake s sender) - unat amount \<and>
      unat (getTotalStaked s') = unat (getTotalStaked s) - unat amount) \<and>
   (reachable t \<longrightarrow> FHE_isInitialized (getStakeCipher t sender) \<longrightarrow>
      (\<exists>z. decrypt (fhe t) (getStakeCipher t sender) = Some z \<and>
         unat z = unat (getStake t sender) mod 2 ^ 64)) \<and>
   (reachable t \<longrightarrow> FHE_isInitialized (getTotalStakedCipher t) \<longrightarrow>
      (\<exists>z. decrypt (fhe t) (getTotalStakedCipher t) = Some z \<and>
         unat z = unat (getTotalStaked t) mod 2 ^ 64)) \<and>
   (\<exists>u. reachable u \<and> 2 ^ 64 - 1 < unat (getStake u alice) \<and>
      FHE_isInitialized (getStakeCipher u alice) \<and>
      decrypt (fhe u) (getStakeCipher u alice) = Some 0)"
proof -
  have w64: "unat (amount_of c) \<le> 2 ^ 64 - 1"
    using unsigned_less [of "amount_of c", where 'a = nat] by simp
  have w256: "unat (getStake s sender) \<le> 2 ^ 256 - 1" "unat (getTotalStaked s) \<le> 2 ^ 256 - 1"
    using unsigned_less [of "getStake s sender", where 'a = nat]
      unsigned_less [of "getTotalStaked s", where 'a = nat] by simp_all
  have st: "unat (getStake s' sender) = unat (getStake s sender) + unat amount \<and>
      unat (getTotalStaked s') = unat (getTotalStaked s) + unat amount"
    if "stake reg sender amount s = Inr s'"
    using stake_plain [OF that] by (simp add: getStake_def getTotalStaked_def)
  have wd: "unat amount \<le> unat (getStake s sender) \<and> unat amount \<le> unat (getTotalStaked s) \<and>
      unat (getStake s' sender) = unat (getStake s sender) - unat amount \<and>
      unat (getTotalStaked s') = unat (getTotalStaked s) - unat amount"
    if "withdraw reg sender amount s = Inr s'"
    using withdraw_plain [OF that] by (simp add: getStake_def getTotalStaked_def)
  have m1: "\<exists>z. decrypt (fhe t) (getStakeCipher t sender) = Some z \<and>
         unat z = unat (getStake t sender) mod 2 ^ 64"
    if "reachable t" "FHE_isInitialized (getStakeCipher t sender)"
    using reachable_consistent [OF that(1)] that(2)
    by (intro consistent_mirror_mod [of _ "thisAddress t"])
       (simp_all add: consistent_def getStake_def getStakeCipher_def FHE_isInitialized_def)
  have m2: "\<exists>z. decrypt (fhe t) (getTotalStakedCipher t) = Some z \<and>
         unat z = unat (getTotalStaked t) mod 2 ^ 64"
    if "reachable t" "FHE_isInitialized (getTotalStakedCipher t)"
    using reachable_consistent [OF that(1)] that(2)
    by (intro consistent_mirror_mod [of _ "thisAddress t"])
       (simp_all add: consistent_def getTotalStaked_def getTotalStakedCipher_def
          FHE_isInitialized_def)
  have "reachable overflowB \<and> 2 ^ 64 - 1 < unat (getStake overflowB alice) \<and>
      FHE_isInitialized (getStakeCipher overflowB alice) \<and>
      decrypt (fhe overflowB) (getStakeCipher overflowB alice) = Some 0"
    using overflowB_reachable overflowB_values
    by (simp add: getStake_def getStakeCipher_def FHE_isInitialized_def)
  then have ex: "\<exists>u. reachable u \<and> 2 ^ 64 - 1 < unat (getStake u alice) \<and>
      FHE_isInitialized (getStakeCipher u alice) \<and>
      decrypt (fhe u) (getStakeCipher u alice) = Some 0"
    by blast
  show ?thesis
    by (intro conjI impI w64 w256 ex FHE_add_wraps FHE_sub_wraps
        st [THEN conjunct1] st [THEN conjunct2]
        wd [THEN conjunct1] wd [THEN conjunct2, THEN conjunct1]
        wd [THEN conjunct2, THEN conjunct2, THEN conjunct1]
        wd [THEN conjunct2, THEN conjunct2, THEN conjunct2] m1 m2)
qed

theorem widths_and_wrap_around_witness:
  "FHE_add 4096 1 1 (fhe overflowA) =
     Inr (2, snd (projr (FHE_add 4096 1 1 (fhe overflowA)))) \<and>
   decrypt (fhe overflowA) 1 = Some 9223372036854775808 \<and>
   decrypt (snd (projr (FHE_add 4096 1 1 (fhe overflowA)))) 2 = Some 0 \<and>
   FHE_sub 4096 2 1 (fhe secondDeposit) =
     Inr (5, snd (projr (FHE_sub 4096 2 1 (fhe secondDeposit)))) \<and>
   decrypt (fhe secondDeposit) 2 = Some 5 \<and> decrypt (fhe secondDeposit) 1 = Some 5000000 \<and>
   decrypt (snd (projr (FHE_sub 4096 2 1 (fhe secondDeposit)))) 5 =
     Some 18446744073704551621 \<and>
   stake accepting alice 9223372036854775808 (endTransaction overflowA) = Inr overflowB \<and>
   unat (getStake overflowB alice) = 18446744073709551616 \<and>
   withdraw accepting alice 2000000 (endTransaction scenarioA) = Inr scenarioB \<and>
   unat (getStake scenarioB alice) = 3000000 \<and> unat (getTotalStaked scenarioB) = 3000000 \<and>
   reachable overflowB \<and> FHE_isInitialized (getStakeCipher overflowB alice) \<and>
   FHE_isInitialized (getTotalStakedCipher overflowB) \<and>
   decrypt (fhe overflowB) (getStakeCipher overflowB alice) = Some 0 \<and>
   decrypt (fhe overflowB) (getTotalStakedCipher overflowB) = Some 0"
proof -
  let ?e1 = "snd (projr (FHE_add 4096 1 1 (fhe overflowA)))"
  let ?e2 = "snd (projr (FHE_sub 4096 2 1 (fhe secondDeposit)))"
  have add: "FHE_add 4096 1 1 (fhe overflowA) = Inr (2, ?e1)"
    by (simp add: overflowA_def eval_defs)
  have sub: "FHE_sub 4096 2 1 (fhe secondDeposit) = Inr (5, ?e2)"
    by (simp add: secondDeposit_def scenarioA_def eval_defs)
  have d: "decrypt (fhe overflowA) 1 = Some 9223372036854775808"
    "decrypt (fhe secondDeposit) 2 = Some 5" "decrypt (fhe secondDeposit) 1 = Some 5000000"
    by (simp_all add: overflowA_def secondDeposit_def scenarioA_def eval_defs)
  have pre: "unat (getStake (endTransaction overflowA) alice) = 9223372036854775808"
    "unat (getStake (endTransaction scenarioA) alice) = 5000000"
    "unat (getTotalStaked (endTransaction scenarioA)) = 5000000"
    by (simp_all add: overflowA_def scenarioA_def eval_defs)
  have init: "FHE_isInitialized (getStakeCipher overflowB alice)"
    "FHE_isInitialized (getTotalStakedCipher overflowB)"
    by (simp_all add: overflowB_def overflowA_def eval_defs)
  note t1 = widths_and_wrap_around [where caller = 4096 and a = 1 and b = 1
      and e = "fhe overflowA" and h = 2 and e' = ?e1 and s = "endTransaction overflowA"
      and sender = alice and reg = accepting and amount = 9223372036854775808
      and s' = overflowB and t = overflowB and c = "Stake 9223372036854775808"]
  note t2 = widths_and_wrap_around [where caller = 4096 and a = 2 and b = 1
      and e = "fhe secondDeposit" and h = 5 and e' = ?e2 and s = "endTransaction scenarioA"
      and sender = alice and reg = accepting and amount = 2000000
      and s' = scenarioB and t = overflowB and c = "Withdraw 2000000"]
  note c2 = conjunct2
  note add_wraps = t1 [THEN c2, THEN c2, THEN c2, THEN conjunct1, THEN mp, OF add]
  note sub_wraps = t2 [THEN c2, THEN c2, THEN c2, THEN c2, THEN conjunct1, THEN mp, OF sub]
  note staked = t1 [THEN c2, THEN c2, THEN c2, THEN c2, THEN c2, THEN conjunct1, THEN mp,
      OF overflowB_run]
  note withdrawn = t2 [THEN c2, THEN c2, THEN c2, THEN c2, THEN c2, THEN c2, THEN conjunct1,
      THEN mp, OF scenarioB_run]
  note mirror = t1 [THEN c2, THEN c2, THEN c2, THEN c2, THEN c2, THEN c2, THEN c2,
      THEN conjunct1, THEN mp, THEN mp, OF overflowB_reachable init(1)]
  from add_wraps d(1) have a: "decrypt ?e1 2 = Some 0"
    by (auto simp: word_uint_eq_iff)
  from sub_wraps d(2,3) have b: "decrypt ?e2 5 = Some 18446744073704551621"
    by (auto simp: word_uint_eq_iff)
  from staked pre(1) have c: "unat (getStake overflowB alice) = 18446744073709551616"
    by simp
  from withdrawn pre(2,3) have e: "unat (getStake scenarioB alice) = 3000000"
    "unat (getTotalStaked scenarioB) = 3000000"
    by simp_all
  from mirror c
  have f: "\<exists>z. decrypt (fhe overflowB) (getStakeCipher overflowB alice) = Some z \<and> unat z = 0"
    by simp
  then have f': "decrypt (fhe overflowB) (getStakeCipher overflowB alice) = Some 0"
    by (auto simp: unat_eq_0)
  have g: "decrypt (fhe overflowB) (getTotalStakedCipher overflowB) = Some 0"
    by (simp add: overflowB_def overflowA_def eval_defs)
  show ?thesis
    by (intro conjI add d a sub b overflowB_run c scenarioB_run e overflowB_reachable init f' g)
qed

end
